theory Spec2Isabelle
  imports Complex_Main
begin

section \<open>The Telegraph publisher of RSS-to-Telegram-Bot (src/parsing/tgraph.py)\<close>

text \<open>
  The module keeps a pool of Telegraph accounts, throttles the requests of each account,
  reacts to flood control and publishes sanitized HTML. Every coroutine is a function
  that takes the state it touches and returns it updated, as if it ran alone on the
  event loop; the interleaving of concurrent calls of \<open>create_page\<close> on one account
  is modelled separately, by a step function over schedules.
  What the module cannot see is a parameter:
  \<^item> the Telegraph service is a script \<open>svc\<close>: the \<open>k\<close>-th request made in a run takes
    \<open>fst (svc k)\<close> seconds and ends as \<open>snd (svc k)\<close> says;
  \<^item> the wall clock is the field \<open>clock\<close> of the world, read where the source calls
    \<open>time.time()\<close> and advanced by sleeps and requests; times are exact rationals;
  \<^item> the HTML parser and serializer of BeautifulSoup are parameters of the constructor;
  \<^item> \<open>asyncio.gather\<close> is a parameter of \<open>telegraph_ify\<close>.
  Log lines are not modelled.
\<close>

subsection \<open>Strings\<close>

text \<open>
  A Python \<open>str\<close> is modelled as a \<open>string\<close> whose characters are the code points below
  256. \<open>isspace\<close> is \<open>str.isspace\<close> on that range: TAB to CR, FS to US, the space, NEL
  and the no-break space.
\<close>

definition isspace :: "char \<Rightarrow> bool" where
  "isspace c = (let n = of_char c :: nat in
     (9 \<le> n \<and> n \<le> 13) \<or> (28 \<le> n \<and> n \<le> 32) \<or> n = 133 \<or> n = 160)"

text \<open>\<open>str.strip()\<close> with no argument.\<close>

definition strip :: "string \<Rightarrow> string" where
  "strip s = rev (dropWhile isspace (rev (dropWhile isspace s)))"

text \<open>\<open>str.startswith\<close>.\<close>

definition startswith :: "string \<Rightarrow> string \<Rightarrow> bool" where
  "startswith s p = (take (length p) s = p)"

text \<open>\<open>str.split(sep)\<close> for a separator of one character: never an empty list.\<close>

fun split_chr :: "char \<Rightarrow> string \<Rightarrow> string list" where
  "split_chr sep [] = [[]]"
| "split_chr sep (c # cs) =
     (if c = sep then [] # split_chr sep cs
      else (case split_chr sep cs of
              [] \<Rightarrow> [[c]]
            | p # ps \<Rightarrow> (c # p) # ps))"

text \<open>\<open>a in b\<close> on strings: \<open>a\<close> occurs in \<open>b\<close> as a contiguous run.\<close>

fun str_in :: "string \<Rightarrow> string \<Rightarrow> bool" where
  "str_in a [] = (a = [])"
| "str_in a (c # cs) = (take (length a) (c # cs) = a \<or> str_in a cs)"

text \<open>
  \<open>int(s)\<close> on a string, in base 10: surrounding whitespace, an optional sign, then
  one or more decimal digits; anything else raises ValueError (\<open>None\<close>). The whitespace
  that \<open>int\<close> skips is not that of \<open>str.strip\<close>: it is TAB to CR and the space, and,
  of the characters from 127 on, those that \<open>str.isspace\<close> accepts (below 256: NEL and the
  no-break space), which \<open>int\<close> first turns into spaces; FS to US are not skipped. A
  string of more than 4300 digits is refused (the interpreter's default for
  \<open>sys.int_max_str_digits\<close>). The strings \<open>int\<close> is given here come out of
  \<open>split('_')\<close>, so digit-grouping underscores cannot occur.
\<close>

definition int_space :: "char \<Rightarrow> bool" where
  "int_space c = (let n = of_char c :: nat in
     (9 \<le> n \<and> n \<le> 13) \<or> n = 32 \<or> n = 133 \<or> n = 160)"

definition isdigit :: "char \<Rightarrow> bool" where
  "isdigit c = (let n = of_char c :: nat in 48 \<le> n \<and> n \<le> 57)"

definition digits_value :: "string \<Rightarrow> int" where
  "digits_value ds = foldl (\<lambda>acc c. 10 * acc + (int (of_char c) - 48)) 0 ds"

definition py_int :: "string \<Rightarrow> int option" where
  "py_int s =
     (let t = rev (dropWhile int_space (rev (dropWhile int_space s)));
          (neg, ds) = (case t of
                         [] \<Rightarrow> (False, [])
                       | c # cs \<Rightarrow> if c = CHR ''-'' then (True, cs)
                                  else if c = CHR ''+'' then (False, cs)
                                  else (False, t))
      in if ds \<noteq> [] \<and> list_all isdigit ds \<and> length ds \<le> 4300
         then Some (if neg then - digits_value ds else digits_value ds)
         else None)"

subsection \<open>Exceptions, the service and the world\<close>

text \<open>
  The exceptions the module raises or tells apart. A transport exception is classified
  by the first \<open>except\<close> clause of \<open>telegraph_ify\<close> that catches it; \<open>OtherException\<close>
  is any other subclass of \<open>Exception\<close>.
\<close>

datatype exc =
    TelegraphError string
  | TimeoutError
  | ClientError
  | ConnectionError
  | OverflowError
  | ValueError
  | OtherException

datatype response = Returns string | Raises exc

type_synonym service = "nat \<Rightarrow> rat \<times> response"

datatype event =
    Sleep rat
  | FcAcquire
  | FcRelease
  | RequestAcquire
  | RequestRelease
  | ReplaceSession
  | CreateAccount
  | GetAccountInfo "string option"
  | CreatePage "string option" string string string string

record world =
  clock :: rat
  calls :: nat
  trace :: "(rat \<times> event) list"

definition emit :: "event \<Rightarrow> world \<Rightarrow> world" where
  "emit e w = w\<lparr>trace := trace w @ [(clock w, e)]\<rparr>"

text \<open>\<open>await asyncio.sleep(d)\<close>: a delay of zero or less does not wait.\<close>

definition sleep :: "rat \<Rightarrow> world \<Rightarrow> world" where
  "sleep d w = (emit (Sleep d) w)\<lparr>clock := clock w + max d 0\<rparr>"

text \<open>One request to the service: logged when it starts, answered by the script.\<close>

definition request :: "service \<Rightarrow> event \<Rightarrow> world \<Rightarrow> response \<times> world" where
  "request svc e w =
     (let w1 = emit e w
      in (snd (svc (calls w)),
          w1\<lparr>clock := clock w + fst (svc (calls w)), calls := Suc (calls w)\<rparr>))"

subsection \<open>An account: class Telegraph\<close>

record telegraph =
  token :: "string option"
  last_run :: rat
  fc_locked :: bool
  request_locked :: bool

text \<open>\<open>Telegraph.__init__\<close>.\<close>

definition Telegraph :: "string option \<Rightarrow> telegraph" where
  "Telegraph tok = \<lparr>token = tok, last_run = 0, fc_locked = False, request_locked = False\<rparr>"

text \<open>\<open>replace_session\<close> closes the HTTP session and opens a new one.\<close>

definition replace_session :: "world \<Rightarrow> world" where
  "replace_session w = emit ReplaceSession w"

text \<open>
  \<open>create_account\<close> of the client library: asks the service for a new account and, when
  the service answers, stores the access token it issued in the object.
\<close>

definition create_account :: "service \<Rightarrow> telegraph \<Rightarrow> world \<Rightarrow> (exc + unit) \<times> telegraph \<times> world" where
  "create_account svc acc w =
     (case request svc CreateAccount w of
        (Returns tok, w1) \<Rightarrow> (Inr (), acc\<lparr>token := Some tok\<rparr>, w1)
      | (Raises e, w1) \<Rightarrow> (Inl e, acc, w1))"

definition get_account_info :: "service \<Rightarrow> telegraph \<Rightarrow> world \<Rightarrow> (exc + unit) \<times> world" where
  "get_account_info svc acc w =
     (case request svc (GetAccountInfo (token acc)) w of
        (Returns _, w1) \<Rightarrow> (Inr (), w1)
      | (Raises e, w1) \<Rightarrow> (Inl e, w1))"

text \<open>
  \<open>create_page\<close>. The arguments are title, content, author name and author URL.
  A coroutine that finds one of the two locks held waits for another task to release it;
  in a sequential run there is none, so the call does not return: \<open>None\<close>.
  Leaving an \<open>async with\<close> block releases the lock on every path.
\<close>

type_synonym page_args = "string \<times> string \<times> string \<times> string"

definition create_page ::
  "service \<Rightarrow> page_args \<Rightarrow> telegraph \<Rightarrow> world \<Rightarrow> ((exc + string) \<times> telegraph \<times> world) option" where
  "create_page svc args acc w =
     (if fc_locked acc then None
      else let w1 = emit FcRelease (emit FcAcquire w)
      in if request_locked acc then None
      else let w2 = emit RequestAcquire w1;
               acc1 = acc\<lparr>request_locked := True\<rparr>;
               w3 = sleep (max (1 / 2 - (clock w2 - last_run acc1)) 0) w2;
               (title, content, author_name, author_url) = args
           in (case request svc (CreatePage (token acc1) title content author_name author_url) w3 of
                 (Returns url, w4) \<Rightarrow>
                   let acc2 = acc1\<lparr>last_run := clock w4\<rparr>
                   in Some (Inr url, acc2\<lparr>request_locked := False\<rparr>, emit RequestRelease w4)
               | (Raises e, w4) \<Rightarrow>
                   Some (Inl e, acc1\<lparr>request_locked := False\<rparr>, emit RequestRelease w4)))"

text \<open>\<open>flood_wait\<close>.\<close>

definition flood_wait ::
  "service \<Rightarrow> int \<Rightarrow> telegraph \<Rightarrow> world \<Rightarrow> (exc + unit) \<times> telegraph \<times> world" where
  "flood_wait svc retry_after acc w =
     (if \<not> fc_locked acc then
        let w1 = emit FcAcquire w;
            acc1 = acc\<lparr>fc_locked := True\<rparr>
        in if retry_after \<ge> 60 then
             (case create_account svc acc1 w1 of
                (r, acc2, w2) \<Rightarrow> (r, acc2\<lparr>fc_locked := False\<rparr>, emit FcRelease w2))
           else
             let w2 = sleep (of_int (retry_after + 1)) w1
             in (Inr (), acc1\<lparr>fc_locked := False\<rparr>, emit FcRelease w2)
      else (Inr (), acc, w))"

subsection \<open>The pool: class APIs\<close>

text \<open>
  The pool owns the account objects; a reference to an account is its index in
  \<open>accounts\<close>, and a mutation of an account is an update of the list at that index.
\<close>

record apis =
  tokens :: "string list"
  accounts :: "telegraph list"
  curr_id :: int

text \<open>
  One turn of the loop of \<open>init\<close>. \<open>create_account\<close> can be called twice for one
  token: in the \<open>try\<close> block when the length is not 60, and again in the handler of
  TelegraphError. All constructors of \<open>exc\<close> are subclasses of \<open>Exception\<close>, so the last
  handler catches what the first does not.
\<close>

definition init_token :: "service \<Rightarrow> string \<Rightarrow> telegraph list \<times> world \<Rightarrow> telegraph list \<times> world" where
  "init_token svc tok0 st =
     (let (accs, w) = st;
          tok = strip tok0;
          account = Telegraph (Some tok);
          w1 = replace_session w;
          (r1, account1, w2) =
            (if length tok \<noteq> 60 then create_account svc account w1
             else (Inr (), account, w1));
          (r2, w3) =
            (case r1 of
               Inl e \<Rightarrow> (Inl e, w2)
             | Inr _ \<Rightarrow> get_account_info svc account1 w2)
      in case r2 of
           Inr _ \<Rightarrow> (accs @ [account1], w3)
         | Inl (TelegraphError msg) \<Rightarrow>
             (case create_account svc account1 w3 of
                (Inr _, account2, w4) \<Rightarrow> (accs @ [account2], w4)
              | (Inl e, account2, w4) \<Rightarrow> (accs, w4))
         | Inl e \<Rightarrow> (accs, w3))"

definition init :: "service \<Rightarrow> string list \<Rightarrow> telegraph list \<times> world \<Rightarrow> telegraph list \<times> world" where
  "init svc toks st = foldl (\<lambda>st tok. init_token svc tok st) st toks"

text \<open>\<open>APIs.__init__\<close>: a single string is a list of one token.\<close>

definition APIs :: "service \<Rightarrow> string + string list \<Rightarrow> world \<Rightarrow> apis \<times> world" where
  "APIs svc arg w =
     (let toks = (case arg of Inl s \<Rightarrow> [s] | Inr l \<Rightarrow> l);
          (accs, w1) = init svc toks ([], w)
      in (\<lparr>tokens = toks, accounts = accs, curr_id = 0\<rparr>, w1))"

definition valid :: "apis \<Rightarrow> bool" where
  "valid a = (accounts a \<noteq> [])"

definition count :: "apis \<Rightarrow> nat" where
  "count a = length (accounts a)"

text \<open>\<open>get_account\<close> returns the reference (index) of the chosen account and the pool with
  the cursor moved.\<close>

definition get_account :: "apis \<Rightarrow> exc + nat \<times> apis" where
  "get_account a =
     (if accounts a = [] then Inl (TelegraphError ''Telegraph token no set!'')
      else let n = int (length (accounts a));
               curr = (if 0 \<le> curr_id a \<and> curr_id a < n then curr_id a else 0);
               next = (if 0 \<le> curr + 1 \<and> curr + 1 < n then curr + 1 else 0)
           in Inr (nat curr, a\<lparr>curr_id := next\<rparr>))"

text \<open>The module body: \<open>apis\<close> stays \<open>None\<close> unless the variable is set and the pool valid.\<close>

definition module_apis :: "service \<Rightarrow> string option \<Rightarrow> world \<Rightarrow> apis option \<times> world" where
  "module_apis svc TELEGRAPH_TOKEN w =
     (case TELEGRAPH_TOKEN of
        None \<Rightarrow> (None, w)
      | Some s \<Rightarrow>
          if s = [] then (None, w)
          else let (a, w1) = APIs svc (Inr (split_chr CHR '','' s)) w
               in if \<not> valid a then (None, w1) else (Some a, w1))"

text \<open>The indices returned by \<open>n\<close> successive calls of \<open>get_account\<close>, and the pool after them.\<close>

fun get_accounts :: "nat \<Rightarrow> apis \<Rightarrow> nat list \<times> apis" where
  "get_accounts 0 a = ([], a)"
| "get_accounts (Suc n) a =
     (case get_account a of
        Inl e \<Rightarrow> ([], a)
      | Inr (i, a1) \<Rightarrow> (case get_accounts n a1 of (is, a2) \<Rightarrow> (i # is, a2)))"

text \<open>
  The index that \<open>get_account\<close> will return: the local \<open>curr_id\<close> of the source, the
  cursor when it is in range and 0 otherwise.
\<close>

definition cursor :: "apis \<Rightarrow> nat" where
  "cursor a =
     (if 0 \<le> curr_id a \<and> curr_id a < int (length (accounts a)) then nat (curr_id a) else 0)"


subsection \<open>The sanitizer\<close>

text \<open>
  The parsed document is a forest of nodes. A tag carries the identity of its Python
  object (a number), its name, its attribute dictionary as an association list, and its
  children. The identities let the loop of the constructor be written as it is: it walks
  the list of tag objects that \<open>find_all\<close> collected before the first mutation, and
  edits each object where it stands in the tree at that moment.
\<close>

datatype node = Text string | Tag nat string "(string \<times> string) list" "node list"

definition TELEGRAPH_ALLOWED_TAGS :: "string set" where
  "TELEGRAPH_ALLOWED_TAGS = set [
     ''a'', ''aside'', ''b'', ''blockquote'', ''br'', ''code'', ''em'', ''figcaption'', ''figure'',
     ''h3'', ''h4'', ''hr'', ''i'', ''iframe'', ''img'', ''li'', ''ol'', ''p'', ''pre'', ''s'',
     ''strong'', ''u'', ''ul'', ''video'']"

definition ALLOWED_ATTRS :: "string set" where
  "ALLOWED_ATTRS = set [''href'', ''src'']"

text \<open>\<open>soup.find_all(recursive=True)\<close>: all tag objects, in document order.\<close>

fun find_all :: "node list \<Rightarrow> nat list" where
  "find_all [] = []"
| "find_all (Text s # r) = find_all r"
| "find_all (Tag i n a cs # r) = i # find_all cs @ find_all r"

text \<open>
  The body of the loop for the tag object \<open>i\<close>: a tag whose name is not allowed is replaced
  by its children (\<open>replaceWithChildren\<close>); an allowed tag loses the attributes whose key
  is not allowed.
\<close>

fun visit :: "nat \<Rightarrow> node list \<Rightarrow> node list" where
  "visit i [] = []"
| "visit i (Text s # r) = Text s # visit i r"
| "visit i (Tag j n a cs # r) =
     (if j = i then
        (if n \<notin> TELEGRAPH_ALLOWED_TAGS then cs @ r
         else Tag j n (filter (\<lambda>(k, v). k \<in> ALLOWED_ATTRS) a) cs # r)
      else Tag j n a (visit i cs) # visit i r)"

text \<open>The loop over a list of tag objects, and the loop of the constructor.\<close>

definition sanitize_loop :: "nat list \<Rightarrow> node list \<Rightarrow> node list" where
  "sanitize_loop tags soup = foldl (\<lambda>f i. visit i f) soup tags"

definition sanitize :: "node list \<Rightarrow> node list" where
  "sanitize soup = sanitize_loop (find_all soup) soup"

text \<open>
  The sanitizer as the specification describes it: a fresh tree built by recursive
  descent, the sanitized children of a filtered tag going straight into its parent.
\<close>

fun sanitized :: "node list \<Rightarrow> node list" where
  "sanitized [] = []"
| "sanitized (Text s # r) = Text s # sanitized r"
| "sanitized (Tag i n a cs # r) =
     (if n \<notin> TELEGRAPH_ALLOWED_TAGS then sanitized cs @ sanitized r
      else Tag i n (filter (\<lambda>(k, v). k \<in> ALLOWED_ATTRS) a) (sanitized cs) # sanitized r)"

subsection \<open>The publish request: class TelegraphIfy\<close>

record telegraphify =
  retries :: int
  telegraph_author :: string
  telegraph_author_url :: string
  telegraph_title :: string
  telegraph_html_content :: string

text \<open>A string argument that may be \<open>None\<close> is true when it is a non-empty string.\<close>

definition truthy :: "string option \<Rightarrow> bool" where
  "truthy s = (case s of None \<Rightarrow> False | Some t \<Rightarrow> t \<noteq> [])"

text \<open>
  The expression assigned to \<open>telegraph_html_content\<close>. A conditional expression binds
  weaker than \<open>+\<close>, so the source reads \<open>(str(soup) + ... + f"...") if link else ''\<close>.
\<close>

definition html_content :: "string \<Rightarrow> string option \<Rightarrow> string" where
  "html_content soup_str link =
     (if truthy link then
        soup_str
        @ ''<br><br>Generated by ''
        @ ''<a href='' @ [CHR 0x27] @ ''https://github.com/Rongronggg9/RSS-to-Telegram-Bot'' @ [CHR 0x27] @ ''>RSStT</a>. ''
        @ ''The copyright belongs to the source site.<br>''
        @ ''If images cannot be loaded properly due to anti-hotlinking, ''
        @ ''please consider install ''
        @ ''<a href='' @ [CHR 0x27] @ ''https://greasyfork.org/scripts/432923'' @ [CHR 0x27] @ ''>this userscript</a>.''
        @ ''<br><br><a href='' @ [CHR 0x27] @ the link @ [CHR 0x27] @ ''>Source</a>''
      else [])"

text \<open>
  \<open>TelegraphIfy.__init__\<close>. \<open>parse\<close> is \<open>BeautifulSoup(xml, 'lxml')\<close> and \<open>str_soup\<close> is
  \<open>str(soup)\<close>; \<open>apis\<close> is the module variable.
\<close>

definition TelegraphIfy ::
  "(string \<Rightarrow> node list) \<Rightarrow> (node list \<Rightarrow> string) \<Rightarrow> apis option \<Rightarrow>
   string \<Rightarrow> string option \<Rightarrow> string option \<Rightarrow> string option \<Rightarrow> string option \<Rightarrow>
   exc + telegraphify" where
  "TelegraphIfy parse str_soup apis xml title link feed_title author =
     (case apis of
        None \<Rightarrow> Inl (TelegraphError ''Telegraph token no set!'')
      | Some _ \<Rightarrow>
          let soup = sanitize (parse xml);
              (au, au_url) =
                (if truthy feed_title then
                   (the feed_title
                      @ (if truthy author \<and> \<not> str_in (the author) (the feed_title)
                         then '' ('' @ the author @ '')'' else []),
                    if truthy link then the link else [])
                 else (''Generated by RSStT'', ''https://github.com/Rongronggg9/RSS-to-Telegram-Bot''))
          in Inr \<lparr>retries = 0,
                  telegraph_author = au,
                  telegraph_author_url = au_url,
                  telegraph_title = (if truthy title then the title else ''Generated by RSStT''),
                  telegraph_html_content = html_content (str_soup soup) link\<rparr>)"

text \<open>
  \<open>telegraph_ify\<close>. The state is the request object, the pool and the world. The
  recursion of the source has no structural bound, so the function takes fuel: one unit
  per activation, and \<open>None\<close> says that the call has not returned within it (or waits
  on a lock, see \<open>create_page\<close>).

  In the flood-control branch the source awaits
  \<open>asyncio.gather(self.telegraph_ify(), telegraph_account.flood_wait(retry_after))\<close>:
  the event loop runs the recursive retry and \<open>flood_wait\<close> as two tasks that take turns
  at their await points. How the loop interleaves them is not in this module, so
  \<open>gather\<close> is a parameter, about which nothing is assumed: it is given the two
  coroutines and the state at the call, and yields what the \<open>await\<close> yields, the first
  exception raised or the list of both results, with the state it leaves. The function
  returns \<open>rets[0]\<close>.
\<close>

type_synonym state = "telegraphify \<times> apis \<times> world"

type_synonym 'a coroutine = "state \<Rightarrow> ((exc + 'a) \<times> state) option"

type_synonym gather = "string coroutine \<Rightarrow> unit coroutine \<Rightarrow> (string \<times> unit) coroutine"

text \<open>\<open>flood_wait\<close> called on the account object with reference \<open>i\<close>, as a coroutine.\<close>

definition flood_wait_on :: "service \<Rightarrow> nat \<Rightarrow> int \<Rightarrow> unit coroutine" where
  "flood_wait_on svc i retry_after st =
     (case st of
        (self, pool, w) \<Rightarrow>
          (case flood_wait svc retry_after (accounts pool ! i) w of
             (r, acc1, w1) \<Rightarrow> Some (r, self, pool\<lparr>accounts := (accounts pool)[i := acc1]\<rparr>, w1)))"

fun telegraph_ify ::
  "nat \<Rightarrow> gather \<Rightarrow> service \<Rightarrow> state \<Rightarrow> ((exc + string) \<times> state) option" where
  "telegraph_ify 0 gather svc st = None"
| "telegraph_ify (Suc fuel) gather svc (self, pool, w) =
     (if retries self \<ge> 3 then Some (Inl OverflowError, self, pool, w)
      else case get_account pool of
        Inl e \<Rightarrow> Some (Inl e, self, pool, w)
      | Inr (i, pool1) \<Rightarrow>
          (case create_page svc
                  (take 256 (telegraph_title self), telegraph_html_content self,
                   take 128 (telegraph_author self), take 512 (telegraph_author_url self))
                  (accounts pool1 ! i) w of
             None \<Rightarrow> None
           | Some (r, acc1, w1) \<Rightarrow>
               let pool2 = pool1\<lparr>accounts := (accounts pool1)[i := acc1]\<rparr>
               in (case r of
                     Inr url \<Rightarrow> Some (Inr url, self, pool2, w1)
                   | Inl (TelegraphError e_msg) \<Rightarrow>
                       if startswith e_msg ''FLOOD_WAIT_'' then
                         (case py_int (last (split_chr CHR ''_'' e_msg)) of
                            None \<Rightarrow> Some (Inl ValueError, self, pool2, w1)
                          | Some retry_after \<Rightarrow>
                              (case gather (\<lambda>st. telegraph_ify fuel gather svc st)
                                      (flood_wait_on svc i retry_after)
                                      (self\<lparr>retries := retries self + 1\<rparr>, pool2, w1) of
                                 None \<Rightarrow> None
                               | Some (Inl e, st1) \<Rightarrow> Some (Inl e, st1)
                               | Some (Inr rets, st1) \<Rightarrow> Some (Inr (fst rets), st1)))
                       else Some (Inl (TelegraphError e_msg), self, pool2, w1)
                   | Inl TimeoutError \<Rightarrow> Some (Inl TimeoutError, self, pool2, w1)
                   | Inl ClientError \<Rightarrow>
                       if retries self < 3 then telegraph_ify fuel gather svc (self, pool2, w1)
                       else Some (Inl ClientError, self, pool2, w1)
                   | Inl ConnectionError \<Rightarrow>
                       if retries self < 3 then telegraph_ify fuel gather svc (self, pool2, w1)
                       else Some (Inl ConnectionError, self, pool2, w1)
                   | Inl e \<Rightarrow> Some (Inl e, self, pool2, w1))))"

text \<open>The number of \<open>createPage\<close> requests in a trace: the attempts of a publish request.\<close>

fun is_CreatePage :: "rat \<times> event \<Rightarrow> bool" where
  "is_CreatePage (t, CreatePage tok title content author_name author_url) = True"
| "is_CreatePage (t, e) = False"

definition attempts :: "world \<Rightarrow> nat" where
  "attempts w = length (filter is_CreatePage (trace w))"

subsection \<open>Concurrent calls of create_page on one account\<close>

text \<open>
  Coroutines on one event loop run one at a time and give way only where they await.
  \<open>create_page\<close> awaits at four places, so a call is in one of five states:
  \<^item> \<open>Called\<close>: before \<open>async with self._fc_lock\<close>;
  \<^item> \<open>Queued\<close>: through the flood gate, before \<open>async with self._request_lock\<close>;
  \<^item> \<open>Sleeping u\<close>: holds the request lock and sleeps until the time \<open>u\<close>;
  \<^item> \<open>Requesting\<close>: holds the request lock, the transport call is in flight;
  \<^item> \<open>Finished\<close>: has returned or raised.
  A schedule is a list of actions. Between them nothing else happens: \<open>Tick\<close> lets time
  pass (the clock is monotone and exact), \<open>CloseGate\<close> and \<open>OpenGate\<close> are a
  \<open>flood_wait\<close> taking and releasing the flood lock, and the other actions move one call
  to its next state when the source allows it (\<open>None\<close> otherwise): a lock is only taken
  when it is free, and a sleep only ends at or after its deadline. The history records
  when each transport call began and how it ended.
\<close>

datatype pc = Called | Queued | Sleeping rat | Requesting | Finished

datatype action =
    Tick rat
  | CloseGate
  | OpenGate
  | PassGate nat
  | Acquire nat
  | Wake nat
  | Succeed nat
  | Fail nat

datatype mark = Begin nat rat | EndOk nat rat | EndErr nat rat

fun stamp :: "mark \<Rightarrow> rat" where
  "stamp (Begin t x) = x"
| "stamp (EndOk t x) = x"
| "stamp (EndErr t x) = x"

fun holds :: "pc \<Rightarrow> bool" where
  "holds (Sleeping u) = True"
| "holds Requesting = True"
| "holds p = False"

record concurrent =
  now :: rat
  account :: telegraph
  tasks :: "nat \<Rightarrow> pc"
  history :: "mark list"

fun step :: "action \<Rightarrow> concurrent \<Rightarrow> concurrent option" where
  "step (Tick d) s = (if 0 \<le> d then Some (s\<lparr>now := now s + d\<rparr>) else None)"
| "step CloseGate s =
     (if fc_locked (account s) then None
      else Some (s\<lparr>account := (account s)\<lparr>fc_locked := True\<rparr>\<rparr>))"
| "step OpenGate s =
     (if fc_locked (account s) then Some (s\<lparr>account := (account s)\<lparr>fc_locked := False\<rparr>\<rparr>)
      else None)"
| "step (PassGate t) s =
     (if tasks s t = Called \<and> \<not> fc_locked (account s)
      then Some (s\<lparr>tasks := (tasks s)(t := Queued)\<rparr>)
      else None)"
| "step (Acquire t) s =
     (if tasks s t = Queued \<and> \<not> request_locked (account s)
      then Some (s\<lparr>account := (account s)\<lparr>request_locked := True\<rparr>,
                  tasks := (tasks s)(t := Sleeping (now s + max (1 / 2 - (now s - last_run (account s))) 0))\<rparr>)
      else None)"
| "step (Wake t) s =
     (case tasks s t of
        Sleeping u \<Rightarrow>
          if u \<le> now s
          then Some (s\<lparr>tasks := (tasks s)(t := Requesting), history := history s @ [Begin t (now s)]\<rparr>)
          else None
      | _ \<Rightarrow> None)"
| "step (Succeed t) s =
     (if tasks s t = Requesting
      then Some (s\<lparr>account := (account s)\<lparr>last_run := now s, request_locked := False\<rparr>,
                  tasks := (tasks s)(t := Finished),
                  history := history s @ [EndOk t (now s)]\<rparr>)
      else None)"
| "step (Fail t) s =
     (if tasks s t = Requesting
      then Some (s\<lparr>account := (account s)\<lparr>request_locked := False\<rparr>,
                  tasks := (tasks s)(t := Finished),
                  history := history s @ [EndErr t (now s)]\<rparr>)
      else None)"

fun run :: "action list \<Rightarrow> concurrent \<Rightarrow> concurrent option" where
  "run [] s = Some s"
| "run (a # as) s = (case step a s of None \<Rightarrow> None | Some s' \<Rightarrow> run as s')"

definition start :: "rat \<Rightarrow> telegraph \<Rightarrow> concurrent" where
  "start t0 acc = \<lparr>now = t0, account = acc, tasks = (\<lambda>t. Called), history = []\<rparr>"

definition lock_inv :: "concurrent \<Rightarrow> bool" where
  "lock_inv s \<longleftrightarrow>
     (\<forall>t. holds (tasks s t) \<longrightarrow> request_locked (account s))
   \<and> (\<forall>t t'. holds (tasks s t) \<longrightarrow> holds (tasks s t') \<longrightarrow> t = t')"

definition time_inv :: "concurrent \<Rightarrow> bool" where
  "time_inv s \<longleftrightarrow>
     (\<forall>m \<in> set (history s). stamp m \<le> now s) \<and> sorted (map stamp (history s))"

definition spacing_inv :: "concurrent \<Rightarrow> bool" where
  "spacing_inv s \<longleftrightarrow>
     (\<forall>t u. tasks s t = Sleeping u \<longrightarrow> last_run (account s) + 1 / 2 \<le> u)
   \<and> (\<forall>t e. EndOk t e \<in> set (history s) \<longrightarrow> e \<le> last_run (account s))
   \<and> (\<forall>xs ys t e t' b. history s = xs @ EndOk t e # ys \<longrightarrow> Begin t' b \<in> set ys \<longrightarrow> e + 1 / 2 \<le> b)"

text \<open>What holds in every state a schedule reaches.\<close>

definition inv :: "concurrent \<Rightarrow> bool" where
  "inv s \<longleftrightarrow> lock_inv s \<and> time_inv s \<and> spacing_inv s"

section \<open>Properties\<close>

subsection \<open>Round-robin selection\<close>

lemma get_account_step:
  assumes "accounts a \<noteq> []"
  shows "get_account a =
         Inr (cursor a, a\<lparr>curr_id := int (Suc (cursor a) mod length (accounts a))\<rparr>)"
proof -
  have n: "0 < length (accounts a)" using assms by simp
  have c: "cursor a < length (accounts a)" using n by (auto simp: cursor_def)
  have "Suc (cursor a) mod length (accounts a) =
        (if Suc (cursor a) < length (accounts a) then Suc (cursor a) else 0)"
    using c by (auto simp: mod_Suc)
  then show ?thesis
    using assms c by (auto simp: get_account_def cursor_def Let_def)
qed

lemma cursor_after:
  assumes "accounts a \<noteq> []"
  shows "cursor (a\<lparr>curr_id := int (k mod length (accounts a))\<rparr>) = k mod length (accounts a)"
  using assms by (simp add: cursor_def)

lemma get_accounts_seq:
  assumes "accounts a \<noteq> []"
  shows "get_accounts m a =
     (map (\<lambda>j. (cursor a + j) mod length (accounts a)) [0..<m],
      if m = 0 then a else a\<lparr>curr_id := int ((cursor a + m) mod length (accounts a))\<rparr>)"
  using assms
proof (induction m arbitrary: a)
  case 0
  then show ?case by simp
next
  case (Suc m)
  let ?N = "length (accounts a)"
  let ?a1 = "a\<lparr>curr_id := int (Suc (cursor a) mod ?N)\<rparr>"
  have a1: "accounts ?a1 \<noteq> []" "length (accounts ?a1) = ?N" using Suc.prems by simp_all
  have c1: "cursor ?a1 = Suc (cursor a) mod ?N"
    using cursor_after [OF Suc.prems, of "Suc (cursor a)"] by simp
  have ih: "get_accounts m ?a1 =
     (map (\<lambda>j. (cursor ?a1 + j) mod ?N) [0..<m],
      if m = 0 then ?a1 else ?a1\<lparr>curr_id := int ((cursor ?a1 + m) mod ?N)\<rparr>)"
    using Suc.IH [OF a1(1)] by simp
  have shift: "\<And>j. (Suc (cursor a) mod ?N + j) mod ?N = (cursor a + Suc j) mod ?N"
    by (metis add_Suc mod_add_left_eq add_Suc_right)
  have upt: "[0..<Suc m] = 0 # map Suc [0..<m]"
    by (metis upt_conv_Cons map_Suc_upt zero_less_Suc)
  have c0: "cursor a < ?N" using Suc.prems by (auto simp: cursor_def)
  have m1: "map (\<lambda>j. (cursor a + j) mod ?N) [0..<Suc m] =
            cursor a # map (\<lambda>j. (Suc (cursor a) mod ?N + j) mod ?N) [0..<m]"
    unfolding upt shift using c0 by (simp add: o_def)
  have fin: "(if m = 0 then ?a1 else ?a1\<lparr>curr_id := int ((Suc (cursor a) mod ?N + m) mod ?N)\<rparr>)
             = a\<lparr>curr_id := int ((cursor a + Suc m) mod ?N)\<rparr>"
    unfolding shift by simp
  have "get_accounts (Suc m) a =
        (cursor a # map (\<lambda>j. (Suc (cursor a) mod ?N + j) mod ?N) [0..<m],
         (if m = 0 then ?a1 else ?a1\<lparr>curr_id := int ((Suc (cursor a) mod ?N + m) mod ?N)\<rparr>))"
    using ih unfolding c1 by (simp add: get_account_step [OF Suc.prems] del: upt_Suc)
  then show ?case unfolding m1 fin by simp
qed

lemma count_list_map: "count_list (map g xs) i = length (filter (\<lambda>j. g j = i) xs)"
  by (induction xs) auto

lemma count_residue:
  assumes "p < N"
  shows "length (filter (\<lambda>j. j mod N = p) [0..<m]) = m div N + (if p < m mod N then 1 else 0)"
  using assms by (induction m) (auto simp: mod_Suc div_Suc)

lemma residue_shift:
  assumes "i < (N::nat)"
  shows "((c + j) mod N = i) = (j mod N = (i + N - c mod N) mod N)"
proof -
  define c' where "c' = c mod N"
  define r where "r = j mod N"
  have N: "0 < N" using assms by simp
  have b: "c' < N" "r < N" using N by (simp_all add: c'_def r_def)
  have l: "(c + j) mod N = (c' + r) mod N" unfolding c'_def r_def by (simp add: mod_add_eq)
  have two: "\<And>x. x < 2 * N \<Longrightarrow> x mod N = (if x < N then x else x - N)"
    by (simp add: mod_if)
  have "((c' + r) mod N = i) = (r = (i + N - c') mod N)"
    using b assms by (subst two, simp, subst two, simp) auto
  then show ?thesis unfolding l by (simp add: c'_def r_def)
qed

lemma ceil_div:
  assumes "0 < m mod (N::nat)" "0 < N"
  shows "(m + N - 1) div N = Suc (m div N)"
proof -
  define q where "q = m div N"
  obtain r where r: "m mod N = Suc r" using assms(1) by (cases "m mod N") auto
  have rN: "r < N" using r assms(2) by (metis Suc_lessD mod_less_divisor)
  have "m = m mod N + q * N" by (simp add: q_def)
  then have m: "m = Suc r + q * N" using r by simp
  have e: "m + N - 1 = r + Suc q * N" by (subst m) simp
  have "(r + Suc q * N) div N = Suc q + r div N"
    using assms(2) by (intro div_mult_self1) simp
  then show ?thesis unfolding e q_def [symmetric] using rN by simp
qed

lemma count_cyclic:
  assumes "i < (N::nat)"
  shows "count_list (map (\<lambda>j. (c + j) mod N) [0..<m]) i \<in> {m div N, (m + N - 1) div N}"
proof -
  let ?p = "(i + N - c mod N) mod N"
  have p: "?p < N" using assms by simp
  have "count_list (map (\<lambda>j. (c + j) mod N) [0..<m]) i
        = length (filter (\<lambda>j. j mod N = ?p) [0..<m])"
    unfolding count_list_map residue_shift [OF assms] ..
  also have "\<dots> = m div N + (if ?p < m mod N then 1 else 0)"
    by (rule count_residue [OF p])
  finally have e: "count_list (map (\<lambda>j. (c + j) mod N) [0..<m]) i
                   = m div N + (if ?p < m mod N then 1 else 0)" .
  show ?thesis
  proof (cases "?p < m mod N")
    case True
    then have "0 < m mod N" by simp
    then have "(m + N - 1) div N = Suc (m div N)" using assms by (intro ceil_div) simp_all
    then show ?thesis using e True by simp
  next
    case False
    then show ?thesis using e by simp
  qed
qed

text \<open>
  Claim C5, the part that fails. The claim counts, over \<open>N + k\<close> successive calls,
  \<open>\<lceil>k/N\<rceil>\<close> or \<open>\<lfloor>k/N\<rfloor>\<close> returns of each account. For one account and \<open>k = 0\<close>
  the single call returns the account once, and both bounds are 0.
\<close>

theorem get_account_count_counterexample:
  "\<not> (count_list (fst (get_accounts (1 + 0) \<lparr>tokens = [], accounts = [Telegraph None], curr_id = 0\<rparr>)) 0
        \<in> {(0::nat) div 1, (0 + 1 - 1) div 1})"
  by (simp add: get_account_def)

text \<open>
  Claim C5, amended. For a pool of \<open>N \<ge> 1\<close> accounts, \<open>get_account\<close> returns the
  account at the cursor (index 0 when the cursor is out of range) and moves the cursor to
  the next index modulo \<open>N\<close>. Over \<open>m\<close> successive calls the returned sequence is
  \<open>(c + j) mod N\<close> for \<open>j < m\<close>, so it is cyclic with period \<open>N\<close>; each account is
  returned \<open>\<lfloor>m/N\<rfloor>\<close> or \<open>\<lceil>m/N\<rceil>\<close> times; the accounts are untouched and the cursor
  is in \<open>[0, N)\<close> after every call.
\<close>

theorem get_account_round_robin:
  assumes "accounts a \<noteq> []"
  shows "get_account a = Inr (cursor a, a\<lparr>curr_id := int (Suc (cursor a) mod length (accounts a))\<rparr>)
       \<and> cursor a < length (accounts a)
       \<and> fst (get_accounts m a) = map (\<lambda>j. (cursor a + j) mod length (accounts a)) [0..<m]
       \<and> (\<forall>j. j + length (accounts a) < m \<longrightarrow>
              fst (get_accounts m a) ! (j + length (accounts a)) = fst (get_accounts m a) ! j)
       \<and> (\<forall>i < length (accounts a).
              count_list (fst (get_accounts m a)) i
                \<in> {m div length (accounts a), (m + length (accounts a) - 1) div length (accounts a)})
       \<and> accounts (snd (get_accounts m a)) = accounts a
       \<and> (0 < m \<longrightarrow> 0 \<le> curr_id (snd (get_accounts m a))
                    \<and> curr_id (snd (get_accounts m a)) < int (length (accounts a)))"
proof -
  let ?N = "length (accounts a)"
  have N: "0 < ?N" using assms by simp
  note seq = get_accounts_seq [OF assms, of m]
  have 1: "get_account a = Inr (cursor a, a\<lparr>curr_id := int (Suc (cursor a) mod ?N)\<rparr>)"
    by (rule get_account_step [OF assms])
  have 2: "cursor a < ?N" using N by (auto simp: cursor_def)
  have 3: "fst (get_accounts m a) = map (\<lambda>j. (cursor a + j) mod ?N) [0..<m]"
    by (simp add: seq)
  have 4: "\<forall>j. j + ?N < m \<longrightarrow> fst (get_accounts m a) ! (j + ?N) = fst (get_accounts m a) ! j"
    unfolding 3 by (simp add: add.assoc [symmetric])
  have 5: "\<forall>i < ?N. count_list (fst (get_accounts m a)) i \<in> {m div ?N, (m + ?N - 1) div ?N}"
    unfolding 3 using count_cyclic by blast
  have 6: "accounts (snd (get_accounts m a)) = accounts a"
    by (simp add: seq)
  have 7: "0 < m \<longrightarrow> 0 \<le> curr_id (snd (get_accounts m a)) \<and> curr_id (snd (get_accounts m a)) < int ?N"
    using N by (simp add: seq)
  show ?thesis using 1 2 3 4 5 6 7 by blast
qed

theorem get_account_round_robin_witness:
  "accounts \<lparr>tokens = [], accounts = [Telegraph (Some ''A''), Telegraph (Some ''B'')], curr_id = 7\<rparr> \<noteq> []
   \<and> get_account \<lparr>tokens = [], accounts = [Telegraph (Some ''A''), Telegraph (Some ''B'')], curr_id = 7\<rparr>
     = Inr (0, \<lparr>tokens = [], accounts = [Telegraph (Some ''A''), Telegraph (Some ''B'')], curr_id = 1\<rparr>)
   \<and> fst (get_accounts 5 \<lparr>tokens = [], accounts = [Telegraph (Some ''A''), Telegraph (Some ''B'')], curr_id = 7\<rparr>)
     = [0, 1, 0, 1, 0]
   \<and> count_list (fst (get_accounts 5 \<lparr>tokens = [], accounts = [Telegraph (Some ''A''), Telegraph (Some ''B'')], curr_id = 7\<rparr>)) 1
     \<in> {2, 3}"
proof -
  let ?a = "\<lparr>tokens = [], accounts = [Telegraph (Some ''A''), Telegraph (Some ''B'')], curr_id = 7\<rparr>"
  have ne: "accounts ?a \<noteq> []" by simp
  have c: "cursor ?a = 0" by (simp add: cursor_def)
  have l: "length (accounts ?a) = 2" by simp
  have m: "map (\<lambda>j. (0 + j) mod 2) [0..<5] = [0, 1, 0, 1, 0::nat]" by code_simp
  have d: "(5::nat) div 2 = 2" "(5 + 2 - 1) div 2 = (3::nat)" "Suc 0 mod 2 = 1" by simp_all
  note t = get_account_round_robin [OF ne, of 5]
  have 1: "get_account ?a = Inr (0, ?a\<lparr>curr_id := 1\<rparr>)"
    using t unfolding c l d by simp
  have 3: "fst (get_accounts 5 ?a) = [0, 1, 0, 1, 0]"
    using t unfolding c l m by blast
  from t have q: "\<forall>i<length (accounts ?a). count_list (fst (get_accounts 5 ?a)) i
       \<in> {5 div length (accounts ?a), (5 + length (accounts ?a) - 1) div length (accounts ?a)}"
    by blast
  have "1 < length (accounts ?a)" by simp
  with q have "count_list (fst (get_accounts 5 ?a)) 1
       \<in> {5 div length (accounts ?a), (5 + length (accounts ?a) - 1) div length (accounts ?a)}"
    by blast
  moreover have "(5::nat) div Suc (Suc 0) = 2" "(6::nat) div Suc (Suc 0) = 3"
    by (simp_all flip: numeral_2_eq_2)
  ultimately have 5: "count_list (fst (get_accounts 5 ?a)) 1 \<in> {2, 3}"
    by simp
  show ?thesis using ne 1 3 5 by simp
qed

subsection \<open>Flood control on one account\<close>

text \<open>
  Claim C6. When the flood gate of an account is already closed, \<open>flood_wait\<close> does
  nothing, whatever \<open>retry_after\<close> is: no sleep, no request for a new credential (the
  world, with its trace and its clock, is returned as it was), and the account is
  unchanged.
\<close>

theorem flood_wait_closed_gate:
  assumes "fc_locked acc"
  shows "flood_wait svc retry_after acc w = (Inr (), acc, w)"
  using assms by (simp add: flood_wait_def)

theorem flood_wait_closed_gate_witness:
  "fc_locked ((Telegraph (Some ''A''))\<lparr>fc_locked := True\<rparr>)
   \<and> flood_wait (\<lambda>k. (1, Returns ''B'')) 90 ((Telegraph (Some ''A''))\<lparr>fc_locked := True\<rparr>)
        \<lparr>clock = 1000, calls = 0, trace = []\<rparr>
     = (Inr (), (Telegraph (Some ''A''))\<lparr>fc_locked := True\<rparr>, \<lparr>clock = 1000, calls = 0, trace = []\<rparr>)"
proof -
  have h: "fc_locked ((Telegraph (Some ''A''))\<lparr>fc_locked := True\<rparr>)" by simp
  show ?thesis
    using h flood_wait_closed_gate [OF h, where svc = "\<lambda>k. (1, Returns ''B'')" and retry_after = 90
                                  and w = "\<lparr>clock = 1000, calls = 0, trace = []\<rparr>"]
    by simp
qed

text \<open>
  Claim C3. On an account whose flood gate is open, \<open>flood_wait\<close> closes the gate and
  \<^item> for \<open>retry_after \<ge> 60\<close> asks the service for a new account (\<open>create_account\<close>) and
    does not sleep: the trace gains the closing of the gate, the request and the
    reopening, whatever the service answers, and when the service issues the token
    \<open>tok\<close> the account carries it from then on;
  \<^item> for \<open>retry_after < 60\<close> sleeps \<open>retry_after + 1\<close> seconds and makes no request;
  in both cases the gate is open again when the call ends.
\<close>

theorem flood_wait_open_gate:
  assumes "\<not> fc_locked acc"
  shows "(60 \<le> retry_after \<longrightarrow>
            (case flood_wait svc retry_after acc w of
               (r, acc', w') \<Rightarrow>
                 \<not> fc_locked acc'
                 \<and> trace w' = trace w @ [(clock w, FcAcquire), (clock w, CreateAccount), (clock w', FcRelease)]
                 \<and> clock w' = clock w + fst (svc (calls w))
                 \<and> (\<forall>tok. snd (svc (calls w)) = Returns tok \<longrightarrow>
                       r = Inr () \<and> acc' = acc\<lparr>token := Some tok\<rparr>)))
       \<and> (retry_after < 60 \<longrightarrow>
            flood_wait svc retry_after acc w =
              (Inr (), acc,
               w\<lparr>clock := clock w + max (of_int (retry_after + 1)) 0,
                 trace := trace w @ [(clock w, FcAcquire),
                                     (clock w, Sleep (of_int (retry_after + 1))),
                                     (clock w + max (of_int (retry_after + 1)) 0, FcRelease)]\<rparr>))"
  using assms
  by (cases "snd (svc (calls w))")
     (simp_all add: flood_wait_def create_account_def request_def sleep_def emit_def Let_def)

theorem flood_wait_open_gate_witness:
  "\<not> fc_locked (Telegraph (Some ''A''))
   \<and> flood_wait (\<lambda>k. (1, Returns ''B'')) 90 (Telegraph (Some ''A'')) \<lparr>clock = 1000, calls = 0, trace = []\<rparr>
     = (Inr (), Telegraph (Some ''B''),
        \<lparr>clock = 1001, calls = 1,
          trace = [(1000, FcAcquire), (1000, CreateAccount), (1001, FcRelease)]\<rparr>)
   \<and> flood_wait (\<lambda>k. (1, Returns ''B'')) 5 (Telegraph (Some ''A'')) \<lparr>clock = 1000, calls = 0, trace = []\<rparr>
     = (Inr (), Telegraph (Some ''A''),
        \<lparr>clock = 1006, calls = 0,
          trace = [(1000, FcAcquire), (1000, Sleep 6), (1006, FcRelease)]\<rparr>)"
proof -
  have h: "\<not> fc_locked (Telegraph (Some ''A''))" by (simp add: Telegraph_def)
  have a: "flood_wait (\<lambda>k. (1, Returns ''B'')) 90 (Telegraph (Some ''A'')) \<lparr>clock = 1000, calls = 0, trace = []\<rparr>
     = (Inr (), Telegraph (Some ''B''),
        \<lparr>clock = 1001, calls = 1,
          trace = [(1000, FcAcquire), (1000, CreateAccount), (1001, FcRelease)]\<rparr>)"
    using flood_wait_open_gate [OF h, where svc = "\<lambda>k. (1, Returns ''B'')" and retry_after = 90
                                and w = "\<lparr>clock = 1000, calls = 0, trace = []\<rparr>"]
    by (simp add: flood_wait_def create_account_def request_def emit_def Telegraph_def)
  have b: "flood_wait (\<lambda>k. (1, Returns ''B'')) 5 (Telegraph (Some ''A'')) \<lparr>clock = 1000, calls = 0, trace = []\<rparr>
     = (Inr (), Telegraph (Some ''A''),
        \<lparr>clock = 1006, calls = 0,
          trace = [(1000, FcAcquire), (1000, Sleep 6), (1006, FcRelease)]\<rparr>)"
    using flood_wait_open_gate [OF h, where svc = "\<lambda>k. (1, Returns ''B'')" and retry_after = 5
                                and w = "\<lparr>clock = 1000, calls = 0, trace = []\<rparr>"]
    by simp
  show ?thesis using h a b by simp
qed

subsection \<open>Throttled publishing on one account\<close>

text \<open>
  Claim C9. A call of \<open>create_page\<close> that returns has made one request. When the request
  raises, the call raises the same exception and the account is exactly as before
  (both locks released again, \<open>last_run\<close> and the token untouched). When the request
  returns a page, \<open>last_run\<close> becomes the time at which it returned, and nothing else of
  the account changes. A call that does not return found a lock held and changes nothing.
\<close>

theorem create_page_last_run:
  "(case create_page svc args acc w of
      None \<Rightarrow> fc_locked acc \<or> request_locked acc
    | Some (r, acc', w') \<Rightarrow>
        (case snd (svc (calls w)) of
           Raises e \<Rightarrow> r = Inl e \<and> acc' = acc
         | Returns url \<Rightarrow>
             r = Inr url \<and> acc' = acc\<lparr>last_run := clock w'\<rparr>
             \<and> clock w' = clock w + max (1 / 2 - (clock w - last_run acc)) 0 + fst (svc (calls w))))"
  by (cases "snd (svc (calls w))"; cases args)
     (simp_all add: create_page_def request_def sleep_def emit_def Let_def)

theorem create_page_last_run_witness:
  "create_page (\<lambda>k. (1 / 10, Raises ClientError)) (''t'', ''c'', ''a'', ''u'')
       ((Telegraph (Some ''A''))\<lparr>last_run := 1000\<rparr>) \<lparr>clock = 1000, calls = 0, trace = []\<rparr>
     = Some (Inl ClientError, (Telegraph (Some ''A''))\<lparr>last_run := 1000\<rparr>,
             \<lparr>clock = 10006 / 10, calls = 1,
               trace = [(1000, FcAcquire), (1000, FcRelease), (1000, RequestAcquire), (1000, Sleep (1 / 2)),
                        (10005 / 10, CreatePage (Some ''A'') ''t'' ''c'' ''a'' ''u''),
                        (10006 / 10, RequestRelease)]\<rparr>)
   \<and> create_page (\<lambda>k. (1 / 10, Returns ''url'')) (''t'', ''c'', ''a'', ''u'')
       ((Telegraph (Some ''A''))\<lparr>last_run := 1000\<rparr>) \<lparr>clock = 1000, calls = 0, trace = []\<rparr>
     = Some (Inr ''url'', (Telegraph (Some ''A''))\<lparr>last_run := 10006 / 10\<rparr>,
             \<lparr>clock = 10006 / 10, calls = 1,
               trace = [(1000, FcAcquire), (1000, FcRelease), (1000, RequestAcquire), (1000, Sleep (1 / 2)),
                        (10005 / 10, CreatePage (Some ''A'') ''t'' ''c'' ''a'' ''u''),
                        (10006 / 10, RequestRelease)]\<rparr>)"
  using create_page_last_run [where svc = "\<lambda>k. (1 / 10, Raises ClientError)" and args = "(''t'', ''c'', ''a'', ''u'')"
          and acc = "(Telegraph (Some ''A''))\<lparr>last_run := 1000\<rparr>" and w = "\<lparr>clock = 1000, calls = 0, trace = []\<rparr>"]
  by (simp add: create_page_def request_def sleep_def emit_def Telegraph_def)

subsection \<open>Pool initialization\<close>

lemma init_token_all_raise:
  assumes "\<forall>k. \<exists>e. snd (svc k) = Raises e"
  shows "fst (init_token svc tok (accs, w)) = accs"
proof -
  have r: "\<And>e w. \<exists>x w'. request svc e w = (Raises x, w')"
    using assms by (simp add: request_def Let_def)
  have ca: "\<And>(acc::telegraph) w. \<exists>x w'. create_account svc acc w = (Inl x, acc, w')"
  proof -
    fix acc :: telegraph and w
    obtain x w' where "request svc CreateAccount w = (Raises x, w')" using r by blast
    then show "\<exists>x w'. create_account svc acc w = (Inl x, acc, w')"
      by (simp add: create_account_def)
  qed
  have gi: "\<And>(acc::telegraph) w. \<exists>x w'. get_account_info svc acc w = (Inl x, w')"
  proof -
    fix acc :: telegraph and w
    obtain x w' where "request svc (GetAccountInfo (token acc)) w = (Raises x, w')" using r by blast
    then show "\<exists>x w'. get_account_info svc acc w = (Inl x, w')"
      by (simp add: get_account_info_def)
  qed
  let ?acc = "Telegraph (Some (strip tok))"
  let ?w1 = "replace_session w"
  obtain x1 w2 where c1: "create_account svc ?acc ?w1 = (Inl x1, ?acc, w2)" using ca by blast
  obtain x2 w3 where g1: "get_account_info svc ?acc ?w1 = (Inl x2, w3)" using gi by blast
  obtain x3 w4 where c2: "create_account svc ?acc w2 = (Inl x3, ?acc, w4)" using ca by blast
  obtain x4 w5 where c3: "create_account svc ?acc w3 = (Inl x4, ?acc, w5)" using ca by blast
  show ?thesis
    by (cases x1; cases x2) (simp_all add: init_token_def Let_def c1 g1 c2 c3)
qed

lemma init_all_raise:
  assumes "\<forall>k. \<exists>e. snd (svc k) = Raises e"
  shows "fst (init svc toks (accs, w)) = accs"
proof -
  have "fst (foldl (\<lambda>st tok. init_token svc tok st) st toks) = fst st" for st
  proof (induction toks arbitrary: st)
    case Nil
    then show ?case by simp
  next
    case (Cons t ts)
    have "fst (init_token svc t st) = fst st"
      using init_token_all_raise [OF assms, of t "fst st" "snd st"] by simp
    then show ?case using Cons.IH [of "init_token svc t st"] by simp
  qed
  then show ?thesis by (simp add: init_def)
qed

text \<open>
  Claim C8. A pool built from an empty credential list has no account and is not valid,
  and neither is a pool all of whose credentials were dropped (as when every request of
  the service raises). The module then keeps \<open>apis = None\<close>, as it does when the
  configuration variable is unset or empty. \<open>get_account\<close> on an empty pool and the
  constructor of \<open>TelegraphIfy\<close> without a pool raise
  \<open>TelegraphError('Telegraph token no set!')\<close>; \<open>telegraph_ify\<close> on an empty pool
  raises it with the world unchanged, so no request has been made.
\<close>

theorem empty_pool_configuration_error:
  "APIs svc (Inr []) w = (\<lparr>tokens = [], accounts = [], curr_id = 0\<rparr>, w)
   \<and> \<not> valid (fst (APIs svc (Inr []) w))
   \<and> ((\<forall>k. \<exists>e. snd (svc k) = Raises e) \<longrightarrow> \<not> valid (fst (APIs svc (Inr toks) w)))
   \<and> module_apis svc None w = (None, w)
   \<and> module_apis svc (Some []) w = (None, w)
   \<and> (\<not> valid (fst (APIs svc (Inr (split_chr CHR '','' s)) w)) \<longrightarrow> fst (module_apis svc (Some s) w) = None)
   \<and> (accounts a = [] \<longrightarrow>
         \<not> valid a \<and> get_account a = Inl (TelegraphError ''Telegraph token no set!''))
   \<and> TelegraphIfy parse str_soup None xml title link feed_title author
       = Inl (TelegraphError ''Telegraph token no set!'')
   \<and> (accounts a = [] \<and> retries self < 3 \<longrightarrow>
         telegraph_ify (Suc fuel) gather svc (self, a, w)
           = Some (Inl (TelegraphError ''Telegraph token no set!''), self, a, w))"
proof -
  have 1: "APIs svc (Inr []) w = (\<lparr>tokens = [], accounts = [], curr_id = 0\<rparr>, w)"
    by (simp add: APIs_def init_def)
  have 2: "\<not> valid (fst (APIs svc (Inr []) w))"
    by (simp add: 1 valid_def)
  have 3: "(\<forall>k. \<exists>e. snd (svc k) = Raises e) \<longrightarrow> \<not> valid (fst (APIs svc (Inr toks) w))"
  proof
    assume a: "\<forall>k. \<exists>e. snd (svc k) = Raises e"
    show "\<not> valid (fst (APIs svc (Inr toks) w))"
      using init_all_raise [OF a, of toks "[]" w]
      by (simp add: APIs_def valid_def split_def)
  qed
  have 4: "module_apis svc None w = (None, w)" "module_apis svc (Some []) w = (None, w)"
    by (simp_all add: module_apis_def)
  have 5: "\<not> valid (fst (APIs svc (Inr (split_chr CHR '','' s)) w)) \<longrightarrow> fst (module_apis svc (Some s) w) = None"
    by (simp add: module_apis_def split_def)
  have 6: "accounts a = [] \<longrightarrow> \<not> valid a \<and> get_account a = Inl (TelegraphError ''Telegraph token no set!'')"
    by (simp add: valid_def get_account_def)
  have 7: "TelegraphIfy parse str_soup None xml title link feed_title author
       = Inl (TelegraphError ''Telegraph token no set!'')"
    by (simp add: TelegraphIfy_def)
  have 8: "accounts a = [] \<and> retries self < 3 \<longrightarrow>
         telegraph_ify (Suc fuel) gather svc (self, a, w)
           = Some (Inl (TelegraphError ''Telegraph token no set!''), self, a, w)"
    by (simp add: get_account_def)
  show ?thesis using 1 2 3 4 5 6 7 8 by blast
qed

theorem empty_pool_configuration_error_witness:
  "accounts \<lparr>tokens = [], accounts = [], curr_id = 0\<rparr> = []
   \<and> \<not> valid (fst (APIs (\<lambda>k. (0, Raises (TelegraphError ''ACCESS_TOKEN_INVALID''))) (Inr [''x'', ''y''])
                       \<lparr>clock = 1000, calls = 0, trace = []\<rparr>))
   \<and> get_account \<lparr>tokens = [], accounts = [], curr_id = 0\<rparr>
       = Inl (TelegraphError ''Telegraph token no set!'')
   \<and> telegraph_ify (Suc 0) (\<lambda>r f st. None) (\<lambda>k. (0, Raises (TelegraphError ''ACCESS_TOKEN_INVALID'')))
        (\<lparr>retries = 0, telegraph_author = ''a'', telegraph_author_url = ''u'',
          telegraph_title = ''t'', telegraph_html_content = ''c''\<rparr>,
         \<lparr>tokens = [], accounts = [], curr_id = 0\<rparr>, \<lparr>clock = 1000, calls = 0, trace = []\<rparr>)
       = Some (Inl (TelegraphError ''Telegraph token no set!''),
               \<lparr>retries = 0, telegraph_author = ''a'', telegraph_author_url = ''u'',
                 telegraph_title = ''t'', telegraph_html_content = ''c''\<rparr>,
               \<lparr>tokens = [], accounts = [], curr_id = 0\<rparr>, \<lparr>clock = 1000, calls = 0, trace = []\<rparr>)"
proof -
  let ?svc = "\<lambda>k::nat. (0::rat, Raises (TelegraphError ''ACCESS_TOKEN_INVALID''))"
  let ?a = "\<lparr>tokens = [], accounts = [], curr_id = 0\<rparr>"
  let ?self = "\<lparr>retries = 0, telegraph_author = ''a'', telegraph_author_url = ''u'',
                telegraph_title = ''t'', telegraph_html_content = ''c''\<rparr>"
  let ?w = "\<lparr>clock = 1000, calls = 0, trace = []\<rparr>"
  note t = empty_pool_configuration_error [where svc = ?svc and toks = "[''x'', ''y'']" and w = ?w
      and a = ?a and self = ?self and fuel = 0 and gather = "\<lambda>r f st. None" and s = "[]" and parse = "\<lambda>x. []" and str_soup = "\<lambda>f. []"
      and xml = "[]" and title = None and link = None and feed_title = None and author = None]
  have h1: "\<forall>k. \<exists>e. snd (?svc k) = Raises e" by simp
  have h2: "accounts ?a = []" by simp
  have h3: "retries ?self < 3" by simp
  from t h1 have 1: "\<not> valid (fst (APIs ?svc (Inr [''x'', ''y'']) ?w))" by blast
  from t h2 have 2: "get_account ?a = Inl (TelegraphError ''Telegraph token no set!'')" by blast
  from t h2 h3 have 3: "telegraph_ify (Suc 0) (\<lambda>r f st. None) ?svc (?self, ?a, ?w)
       = Some (Inl (TelegraphError ''Telegraph token no set!''), ?self, ?a, ?w)" by blast
  show ?thesis using h2 1 2 3 by blast
qed

lemma strip_pad:
  assumes "list_all isspace ws" "list_all isspace ws'"
  shows "strip (ws @ s @ ws') = strip s"
proof -
  have l: "dropWhile isspace (ws @ s @ ws') = dropWhile isspace (s @ ws')"
    using assms(1) by (intro dropWhile_append2) (simp add: list_all_iff)
  have r: "dropWhile isspace (rev ws' @ xs) = dropWhile isspace xs" for xs
    using assms(2) by (intro dropWhile_append2) (simp add: list_all_iff)
  show ?thesis
  proof (cases "list_all isspace s")
    case True
    then have e: "dropWhile isspace (s @ ws') = []" "dropWhile isspace s = []"
      using assms(2) by (auto simp: list_all_iff dropWhile_eq_Nil_conv)
    show ?thesis by (simp only: strip_def l e)
  next
    case False
    then obtain x where "x \<in> set s" "\<not> isspace x" by (auto simp: list_all_iff)
    then have "dropWhile isspace (s @ ws') = dropWhile isspace s @ ws'"
      by (intro dropWhile_append1)
    then show ?thesis by (simp add: strip_def l r)
  qed
qed

lemma strip_idem: "strip (strip s) = strip s"
proof -
  define t where "t = dropWhile isspace s"
  define u where "u = dropWhile isspace (rev t)"
  have s: "strip s = rev u" by (simp add: strip_def t_def u_def)
  show ?thesis
  proof (cases "u = []")
    case True
    then have e: "strip s = []" by (simp add: s)
    have "strip [] = []" by (simp add: strip_def)
    then show ?thesis by (simp only: e)
  next
    case False
    have "rev t = takeWhile isspace (rev t) @ u" by (simp add: u_def)
    then have "t = rev u @ rev (takeWhile isspace (rev t))"
      by (metis rev_append rev_rev_ident)
    then have "hd (rev u) = hd t" using False by (metis hd_append2 rev_is_Nil_conv)
    moreover have "t \<noteq> []" using False by (auto simp: u_def)
    then have "\<not> isspace (hd t)" unfolding t_def by (rule hd_dropWhile)
    ultimately have "\<not> isspace (hd (rev u))" by simp
    then have a: "dropWhile isspace (rev u) = rev u"
      using False by (cases "rev u") auto
    have b: "dropWhile isspace u = u" by (simp add: u_def)
    show ?thesis by (simp add: s) (simp add: strip_def a b)
  qed
qed

lemma init_token_strip: "init_token svc (strip tok) st = init_token svc tok st"
  by (simp add: init_token_def strip_idem)

lemma init_map_strip: "init svc (map strip toks) st = init svc toks st"
  unfolding init_def
  by (induction toks arbitrary: st) (simp_all add: init_token_strip)

lemma strip_exact:
  assumes "list_all isspace ws" "list_all isspace ws'"
    and "tok = [] \<or> (\<not> isspace (hd tok) \<and> \<not> isspace (last tok))"
  shows "strip (ws @ tok @ ws') = tok"
proof -
  have "strip (ws @ tok @ ws') = strip tok" by (rule strip_pad [OF assms(1,2)])
  also have "strip tok = tok"
  proof (cases "tok = []")
    case True
    then show ?thesis by (simp add: strip_def)
  next
    case False
    then have h: "\<not> isspace (hd tok)" and l: "\<not> isspace (last tok)" using assms(3) by auto
    have a: "dropWhile isspace tok = tok" using False h by (cases tok) auto
    have b: "dropWhile isspace (rev tok) = rev tok"
      using False l by (cases tok rule: rev_cases) auto
    show ?thesis by (simp add: strip_def a b)
  qed
  finally show ?thesis .
qed

lemma init_token_60:
  assumes "length (strip tok0) = 60"
  shows "init_token svc tok0 (accs, w) =
     (case snd (svc (calls w)) of
        Returns x \<Rightarrow>
          (accs @ [Telegraph (Some (strip tok0))],
           w\<lparr>clock := clock w + fst (svc (calls w)), calls := Suc (calls w),
             trace := trace w @ [(clock w, ReplaceSession),
                                 (clock w, GetAccountInfo (Some (strip tok0)))]\<rparr>)
      | Raises (TelegraphError m) \<Rightarrow>
          (case snd (svc (Suc (calls w))) of
             Returns t' \<Rightarrow>
               (accs @ [Telegraph (Some t')],
                w\<lparr>clock := clock w + fst (svc (calls w)) + fst (svc (Suc (calls w))),
                  calls := Suc (Suc (calls w)),
                  trace := trace w @ [(clock w, ReplaceSession),
                                      (clock w, GetAccountInfo (Some (strip tok0))),
                                      (clock w + fst (svc (calls w)), CreateAccount)]\<rparr>)
           | Raises e \<Rightarrow>
               (accs,
                w\<lparr>clock := clock w + fst (svc (calls w)) + fst (svc (Suc (calls w))),
                  calls := Suc (Suc (calls w)),
                  trace := trace w @ [(clock w, ReplaceSession),
                                      (clock w, GetAccountInfo (Some (strip tok0))),
                                      (clock w + fst (svc (calls w)), CreateAccount)]\<rparr>))
      | Raises e \<Rightarrow>
          (accs,
           w\<lparr>clock := clock w + fst (svc (calls w)), calls := Suc (calls w),
             trace := trace w @ [(clock w, ReplaceSession),
                                 (clock w, GetAccountInfo (Some (strip tok0)))]\<rparr>))"
  using assms
  by (simp add: init_token_def create_account_def get_account_info_def request_def
        replace_session_def emit_def Telegraph_def Let_def
        split: response.splits exc.splits)

lemma init_token_not_60:
  assumes "length (strip tok0) \<noteq> 60"
  shows "init_token svc tok0 (accs, w) =
     (case snd (svc (calls w)) of
        Returns t1 \<Rightarrow>
          (case snd (svc (Suc (calls w))) of
             Returns x \<Rightarrow>
               (accs @ [Telegraph (Some t1)],
                w\<lparr>clock := clock w + fst (svc (calls w)) + fst (svc (Suc (calls w))),
                  calls := Suc (Suc (calls w)),
                  trace := trace w @ [(clock w, ReplaceSession), (clock w, CreateAccount),
                                      (clock w + fst (svc (calls w)), GetAccountInfo (Some t1))]\<rparr>)
           | Raises (TelegraphError m) \<Rightarrow>
               (case snd (svc (Suc (Suc (calls w)))) of
                  Returns t3 \<Rightarrow>
                    (accs @ [Telegraph (Some t3)],
                     w\<lparr>clock := clock w + fst (svc (calls w)) + fst (svc (Suc (calls w)))
                                  + fst (svc (Suc (Suc (calls w)))),
                       calls := Suc (Suc (Suc (calls w))),
                       trace := trace w @ [(clock w, ReplaceSession), (clock w, CreateAccount),
                                           (clock w + fst (svc (calls w)), GetAccountInfo (Some t1)),
                                           (clock w + fst (svc (calls w)) + fst (svc (Suc (calls w))),
                                            CreateAccount)]\<rparr>)
                | Raises e \<Rightarrow>
                    (accs,
                     w\<lparr>clock := clock w + fst (svc (calls w)) + fst (svc (Suc (calls w)))
                                  + fst (svc (Suc (Suc (calls w)))),
                       calls := Suc (Suc (Suc (calls w))),
                       trace := trace w @ [(clock w, ReplaceSession), (clock w, CreateAccount),
                                           (clock w + fst (svc (calls w)), GetAccountInfo (Some t1)),
                                           (clock w + fst (svc (calls w)) + fst (svc (Suc (calls w))),
                                            CreateAccount)]\<rparr>))
           | Raises e \<Rightarrow>
               (accs,
                w\<lparr>clock := clock w + fst (svc (calls w)) + fst (svc (Suc (calls w))),
                  calls := Suc (Suc (calls w)),
                  trace := trace w @ [(clock w, ReplaceSession), (clock w, CreateAccount),
                                      (clock w + fst (svc (calls w)), GetAccountInfo (Some t1))]\<rparr>))
      | Raises (TelegraphError m) \<Rightarrow>
          (case snd (svc (Suc (calls w))) of
             Returns t2 \<Rightarrow>
               (accs @ [Telegraph (Some t2)],
                w\<lparr>clock := clock w + fst (svc (calls w)) + fst (svc (Suc (calls w))),
                  calls := Suc (Suc (calls w)),
                  trace := trace w @ [(clock w, ReplaceSession), (clock w, CreateAccount),
                                      (clock w + fst (svc (calls w)), CreateAccount)]\<rparr>)
           | Raises e \<Rightarrow>
               (accs,
                w\<lparr>clock := clock w + fst (svc (calls w)) + fst (svc (Suc (calls w))),
                  calls := Suc (Suc (calls w)),
                  trace := trace w @ [(clock w, ReplaceSession), (clock w, CreateAccount),
                                      (clock w + fst (svc (calls w)), CreateAccount)]\<rparr>))
      | Raises e \<Rightarrow>
          (accs,
           w\<lparr>clock := clock w + fst (svc (calls w)), calls := Suc (calls w),
             trace := trace w @ [(clock w, ReplaceSession), (clock w, CreateAccount)]\<rparr>))"
  using assms
  by (auto simp: init_token_def create_account_def get_account_info_def request_def
        replace_session_def emit_def Telegraph_def Let_def
        split: response.splits exc.splits)


lemma init_all_valid:
  assumes "\<forall>k. \<exists>x. snd (svc k) = Returns x"
    and "list_all (\<lambda>t. length (strip t) = 60) toks"
  shows "fst (init svc toks (accs, w)) = accs @ map (\<lambda>t. Telegraph (Some (strip t))) toks
       \<and> calls (snd (init svc toks (accs, w))) = calls w + length toks
       \<and> map snd (trace (snd (init svc toks (accs, w))))
           = map snd (trace w) @ concat (map (\<lambda>t. [ReplaceSession, GetAccountInfo (Some (strip t))]) toks)"
  using assms(2)
proof (induction toks arbitrary: accs w)
  case Nil
  then show ?case by (simp add: init_def)
next
  case (Cons t toks)
  obtain x where x: "snd (svc (calls w)) = Returns x" using assms(1) by blast
  have l: "length (strip t) = 60" and r: "list_all (\<lambda>t. length (strip t) = 60) toks"
    using Cons.prems by simp_all
  let ?w1 = "w\<lparr>clock := clock w + fst (svc (calls w)), calls := Suc (calls w),
             trace := trace w @ [(clock w, ReplaceSession),
                                 (clock w, GetAccountInfo (Some (strip t)))]\<rparr>"
  have t1: "init_token svc t (accs, w) = (accs @ [Telegraph (Some (strip t))], ?w1)"
    using init_token_60 [OF l, of svc accs w] x by simp
  have u: "init svc (t # toks) (accs, w) = init svc toks (accs @ [Telegraph (Some (strip t))], ?w1)"
    by (simp add: init_def t1)
  show ?case unfolding u using Cons.IH [OF r, of "accs @ [Telegraph (Some (strip t))]" ?w1]
    by simp
qed

text \<open>
  Claim C10. \<open>init\<close> runs \<open>init_token\<close> on each configured token in turn, and
  \<open>init_token\<close> uses the token only stripped. \<open>strip\<close> removes exactly the
  whitespace around a token: a token that begins and ends with a character that is not
  whitespace comes back as it is from any padding. The length check is made on the
  stripped token: when that has 60 characters the account is created with it and the
  first request is \<open>getAccountInfo\<close> with the stripped token, whatever the length of
  the configured string; otherwise the first request is \<open>createAccount\<close> and the
  configured token is never sent. Each case is given with the pool and the requests it
  ends with, for every answer of the service. A list of tokens that all strip to 60
  characters, on a service that accepts them, gives the pool of the stripped tokens.
\<close>

theorem init_strips_tokens:
  "init svc [] st = st
   \<and> init svc (tok0 # toks) st = init svc toks (init_token svc tok0 st)
   \<and> init svc (map strip toks) st = init svc toks st
   \<and> (list_all isspace ws \<and> list_all isspace ws' \<longrightarrow>
        strip (ws @ tok @ ws') = strip tok
        \<and> init_token svc (ws @ tok @ ws') st = init_token svc tok st)
   \<and> (list_all isspace ws \<and> list_all isspace ws'
        \<and> (tok = [] \<or> (\<not> isspace (hd tok) \<and> \<not> isspace (last tok))) \<longrightarrow>
        strip (ws @ tok @ ws') = tok)
   \<and> (length (strip tok0) = 60 \<longrightarrow>
        init_token svc tok0 (accs, w) =
          (case snd (svc (calls w)) of
             Returns x \<Rightarrow>
               (accs @ [Telegraph (Some (strip tok0))],
                w\<lparr>clock := clock w + fst (svc (calls w)), calls := Suc (calls w),
                  trace := trace w @ [(clock w, ReplaceSession),
                                      (clock w, GetAccountInfo (Some (strip tok0)))]\<rparr>)
           | Raises (TelegraphError m) \<Rightarrow>
               (case snd (svc (Suc (calls w))) of
                  Returns t' \<Rightarrow>
                    (accs @ [Telegraph (Some t')],
                     w\<lparr>clock := clock w + fst (svc (calls w)) + fst (svc (Suc (calls w))),
                       calls := Suc (Suc (calls w)),
                       trace := trace w @ [(clock w, ReplaceSession),
                                           (clock w, GetAccountInfo (Some (strip tok0))),
                                           (clock w + fst (svc (calls w)), CreateAccount)]\<rparr>)
                | Raises e \<Rightarrow>
                    (accs,
                     w\<lparr>clock := clock w + fst (svc (calls w)) + fst (svc (Suc (calls w))),
                       calls := Suc (Suc (calls w)),
                       trace := trace w @ [(clock w, ReplaceSession),
                                           (clock w, GetAccountInfo (Some (strip tok0))),
                                           (clock w + fst (svc (calls w)), CreateAccount)]\<rparr>))
           | Raises e \<Rightarrow>
               (accs,
                w\<lparr>clock := clock w + fst (svc (calls w)), calls := Suc (calls w),
                  trace := trace w @ [(clock w, ReplaceSession),
                                      (clock w, GetAccountInfo (Some (strip tok0)))]\<rparr>)))
   \<and> (length (strip tok0) \<noteq> 60 \<longrightarrow>
        init_token svc tok0 (accs, w) =
          (case snd (svc (calls w)) of
             Returns t1 \<Rightarrow>
               (case snd (svc (Suc (calls w))) of
                  Returns x \<Rightarrow>
                    (accs @ [Telegraph (Some t1)],
                     w\<lparr>clock := clock w + fst (svc (calls w)) + fst (svc (Suc (calls w))),
                       calls := Suc (Suc (calls w)),
                       trace := trace w @ [(clock w, ReplaceSession), (clock w, CreateAccount),
                                           (clock w + fst (svc (calls w)), GetAccountInfo (Some t1))]\<rparr>)
                | Raises (TelegraphError m) \<Rightarrow>
                    (case snd (svc (Suc (Suc (calls w)))) of
                       Returns t3 \<Rightarrow>
                         (accs @ [Telegraph (Some t3)],
                          w\<lparr>clock := clock w + fst (svc (calls w)) + fst (svc (Suc (calls w)))
                                       + fst (svc (Suc (Suc (calls w)))),
                            calls := Suc (Suc (Suc (calls w))),
                            trace := trace w @ [(clock w, ReplaceSession), (clock w, CreateAccount),
                                                (clock w + fst (svc (calls w)), GetAccountInfo (Some t1)),
                                                (clock w + fst (svc (calls w)) + fst (svc (Suc (calls w))),
                                                 CreateAccount)]\<rparr>)
                     | Raises e \<Rightarrow>
                         (accs,
                          w\<lparr>clock := clock w + fst (svc (calls w)) + fst (svc (Suc (calls w)))
                                       + fst (svc (Suc (Suc (calls w)))),
                            calls := Suc (Suc (Suc (calls w))),
                            trace := trace w @ [(clock w, ReplaceSession), (clock w, CreateAccount),
                                                (clock w + fst (svc (calls w)), GetAccountInfo (Some t1)),
                                                (clock w + fst (svc (calls w)) + fst (svc (Suc (calls w))),
                                                 CreateAccount)]\<rparr>))
                | Raises e \<Rightarrow>
                    (accs,
                     w\<lparr>clock := clock w + fst (svc (calls w)) + fst (svc (Suc (calls w))),
                       calls := Suc (Suc (calls w)),
                       trace := trace w @ [(clock w, ReplaceSession), (clock w, CreateAccount),
                                           (clock w + fst (svc (calls w)), GetAccountInfo (Some t1))]\<rparr>))
           | Raises (TelegraphError m) \<Rightarrow>
               (case snd (svc (Suc (calls w))) of
                  Returns t2 \<Rightarrow>
                    (accs @ [Telegraph (Some t2)],
                     w\<lparr>clock := clock w + fst (svc (calls w)) + fst (svc (Suc (calls w))),
                       calls := Suc (Suc (calls w)),
                       trace := trace w @ [(clock w, ReplaceSession), (clock w, CreateAccount),
                                           (clock w + fst (svc (calls w)), CreateAccount)]\<rparr>)
                | Raises e \<Rightarrow>
                    (accs,
                     w\<lparr>clock := clock w + fst (svc (calls w)) + fst (svc (Suc (calls w))),
                       calls := Suc (Suc (calls w)),
                       trace := trace w @ [(clock w, ReplaceSession), (clock w, CreateAccount),
                                           (clock w + fst (svc (calls w)), CreateAccount)]\<rparr>))
           | Raises e \<Rightarrow>
               (accs,
                w\<lparr>clock := clock w + fst (svc (calls w)), calls := Suc (calls w),
                  trace := trace w @ [(clock w, ReplaceSession), (clock w, CreateAccount)]\<rparr>)))
   \<and> ((\<forall>k. \<exists>x. snd (svc k) = Returns x) \<and> list_all (\<lambda>t. length (strip t) = 60) toks \<longrightarrow>
        fst (init svc toks (accs, w)) = accs @ map (\<lambda>t. Telegraph (Some (strip t))) toks
        \<and> calls (snd (init svc toks (accs, w))) = calls w + length toks
        \<and> map snd (trace (snd (init svc toks (accs, w))))
            = map snd (trace w) @ concat (map (\<lambda>t. [ReplaceSession, GetAccountInfo (Some (strip t))]) toks))"
proof -
  have 1: "init svc [] st = st" by (simp add: init_def)
  have 2: "init svc (tok0 # toks) st = init svc toks (init_token svc tok0 st)" by (simp add: init_def)
  have 3: "init svc (map strip toks) st = init svc toks st" by (rule init_map_strip)
  have 4: "list_all isspace ws \<and> list_all isspace ws' \<longrightarrow>
        strip (ws @ tok @ ws') = strip tok
        \<and> init_token svc (ws @ tok @ ws') st = init_token svc tok st"
    using strip_pad [of ws ws' tok] by (simp add: init_token_def)
  have 5: "list_all isspace ws \<and> list_all isspace ws'
        \<and> (tok = [] \<or> (\<not> isspace (hd tok) \<and> \<not> isspace (last tok))) \<longrightarrow>
        strip (ws @ tok @ ws') = tok"
    using strip_exact [of ws ws' tok] by blast
  note 6 = init_token_60 [of tok0 svc accs w]
  note 7 = init_token_not_60 [of tok0 svc accs w]
  note 8 = init_all_valid [of svc toks accs w]
  show ?thesis
    apply (intro conjI impI)
           apply (rule 1)
          apply (rule 2)
         apply (rule 3)
        apply (simp add: 4)
       apply (simp add: 4)
      apply (simp add: 5)
     apply (erule 6)
    apply (erule 7)
   apply (rule 8 [THEN conjunct1]; simp)
  apply (rule 8 [THEN conjunct2, THEN conjunct1]; simp)
  apply (rule 8 [THEN conjunct2, THEN conjunct2]; simp)
  done
qed

theorem init_strips_tokens_witness:
  "list_all isspace '' '' \<and> list_all isspace [CHR 0x09, CHR 0x0A]
   \<and> length ('' '' @ ''0123456789abcdef0123456789abcdef0123456789abcdef0123456789ab'' @ [CHR 0x09, CHR 0x0A]) = 63
   \<and> strip ('' '' @ ''0123456789abcdef0123456789abcdef0123456789abcdef0123456789ab'' @ [CHR 0x09, CHR 0x0A])
       = ''0123456789abcdef0123456789abcdef0123456789abcdef0123456789ab''
   \<and> init_token (\<lambda>k. (0, Returns ''ok''))
        ('' '' @ ''0123456789abcdef0123456789abcdef0123456789abcdef0123456789ab'' @ [CHR 0x09, CHR 0x0A])
        ([], \<lparr>clock = 1000, calls = 0, trace = []\<rparr>)
       = ([Telegraph (Some ''0123456789abcdef0123456789abcdef0123456789abcdef0123456789ab'')],
          \<lparr>clock = 1000, calls = 1,
            trace = [(1000, ReplaceSession),
                     (1000, GetAccountInfo (Some ''0123456789abcdef0123456789abcdef0123456789abcdef0123456789ab''))]\<rparr>)
   \<and> fst (init (\<lambda>k. (0, Returns ''ok''))
          ['' '' @ ''0123456789abcdef0123456789abcdef0123456789abcdef0123456789ab'' @ [CHR 0x09, CHR 0x0A],
           '' '' @ ''0123456789abcdef0123456789abcdef0123456789abcdef0123456789ab'' @ [CHR 0x09, CHR 0x0A]]
          ([], \<lparr>clock = 1000, calls = 0, trace = []\<rparr>))
       = [Telegraph (Some ''0123456789abcdef0123456789abcdef0123456789abcdef0123456789ab''),
          Telegraph (Some ''0123456789abcdef0123456789abcdef0123456789abcdef0123456789ab'')]"
proof -
  let ?K = "''0123456789abcdef0123456789abcdef0123456789abcdef0123456789ab''"
  let ?ws = "'' ''"
  let ?ws' = "[CHR 0x09, CHR 0x0A]"
  let ?svc = "\<lambda>k::nat. (0::rat, Returns ''ok'')"
  let ?w = "\<lparr>clock = 1000, calls = 0, trace = []\<rparr>"
  define pad where "pad = ?ws @ ?K @ ?ws'"
  have h: "list_all isspace ?ws" "list_all isspace ?ws'"
    by (simp_all add: isspace_def)
  have k: "?K = [] \<or> (\<not> isspace (hd ?K) \<and> \<not> isspace (last ?K))"
    by (simp add: isspace_def)
  have len: "length ?K = 60" by simp
  note t = init_strips_tokens [where ws = ?ws and ws' = ?ws' and tok = ?K and tok0 = pad
      and svc = ?svc and accs = "[]" and w = ?w and toks = "[pad, pad]"
      and st = "([], ?w)"]
  from t h k have s: "strip pad = ?K" unfolding pad_def by blast
  have l60: "length (strip pad) = 60" unfolding s by (rule len)
  from t l60 have "init_token ?svc pad ([], ?w) =
     (case snd (?svc (calls ?w)) of
        Returns x \<Rightarrow>
          ([] @ [Telegraph (Some (strip pad))],
           ?w\<lparr>clock := clock ?w + fst (?svc (calls ?w)), calls := Suc (calls ?w),
             trace := trace ?w @ [(clock ?w, ReplaceSession),
                                 (clock ?w, GetAccountInfo (Some (strip pad)))]\<rparr>)
      | Raises (TelegraphError m) \<Rightarrow>
          (case snd (?svc (Suc (calls ?w))) of
             Returns t' \<Rightarrow>
               ([] @ [Telegraph (Some t')],
                ?w\<lparr>clock := clock ?w + fst (?svc (calls ?w)) + fst (?svc (Suc (calls ?w))),
                  calls := Suc (Suc (calls ?w)),
                  trace := trace ?w @ [(clock ?w, ReplaceSession),
                                      (clock ?w, GetAccountInfo (Some (strip pad))),
                                      (clock ?w + fst (?svc (calls ?w)), CreateAccount)]\<rparr>)
           | Raises e \<Rightarrow>
               ([],
                ?w\<lparr>clock := clock ?w + fst (?svc (calls ?w)) + fst (?svc (Suc (calls ?w))),
                  calls := Suc (Suc (calls ?w)),
                  trace := trace ?w @ [(clock ?w, ReplaceSession),
                                      (clock ?w, GetAccountInfo (Some (strip pad))),
                                      (clock ?w + fst (?svc (calls ?w)), CreateAccount)]\<rparr>))
      | Raises e \<Rightarrow>
          ([],
           ?w\<lparr>clock := clock ?w + fst (?svc (calls ?w)), calls := Suc (calls ?w),
             trace := trace ?w @ [(clock ?w, ReplaceSession),
                                 (clock ?w, GetAccountInfo (Some (strip pad)))]\<rparr>))"
    by blast
  then have it: "init_token ?svc pad ([], ?w)
       = ([Telegraph (Some ?K)],
          \<lparr>clock = 1000, calls = 1,
            trace = [(1000, ReplaceSession), (1000, GetAccountInfo (Some ?K))]\<rparr>)"
    unfolding s by simp
  have all: "\<forall>k. \<exists>x. snd (?svc k) = Returns x" by simp
  have l2: "list_all (\<lambda>t. length (strip t) = 60) [pad, pad]" by (simp add: l60)
  from t all l2 have "fst (init ?svc [pad, pad] ([], ?w)) = [] @ map (\<lambda>t. Telegraph (Some (strip t))) [pad, pad]"
    by blast
  then have il: "fst (init ?svc [pad, pad] ([], ?w)) = [Telegraph (Some ?K), Telegraph (Some ?K)]"
    by (simp add: s)
  have lp: "length pad = 63" by (simp add: pad_def)
  show ?thesis using h lp s it il unfolding pad_def by blast
qed

subsection \<open>The retry budget\<close>

lemma create_page_raises:
  assumes "\<not> fc_locked acc" "\<not> request_locked acc" "snd (svc (calls w)) = Raises e"
  shows "\<exists>w'. create_page svc args acc w = Some (Inl e, acc, w')"
  using assms by (cases args) (simp add: create_page_def request_def sleep_def emit_def Let_def)

lemma telegraph_ify_network_error:
  assumes svc: "\<forall>k. snd (svc k) = Raises ClientError \<or> snd (svc k) = Raises ConnectionError"
    and ne: "accounts pool \<noteq> []"
    and free: "list_all (\<lambda>a. \<not> fc_locked a \<and> \<not> request_locked a) (accounts pool)"
    and r: "retries self < 3"
  shows "telegraph_ify fuel gather svc (self, pool, w) = None"
  using ne free
proof (induction fuel arbitrary: pool w)
  case 0
  then show ?case by simp
next
  case (Suc fuel)
  let ?i = "cursor pool"
  let ?pool1 = "pool\<lparr>curr_id := int (Suc ?i mod length (accounts pool))\<rparr>"
  let ?args = "(take 256 (telegraph_title self), telegraph_html_content self,
               take 128 (telegraph_author self), take 512 (telegraph_author_url self))"
  have ga: "get_account pool = Inr (?i, ?pool1)" by (rule get_account_step [OF Suc.prems(1)])
  have i: "?i < length (accounts pool)" using Suc.prems(1) by (auto simp: cursor_def)
  then have fr: "\<not> fc_locked (accounts pool ! ?i)" "\<not> request_locked (accounts pool ! ?i)"
    using Suc.prems(2) by (simp_all add: list_all_length)
  have upd: "?pool1\<lparr>accounts := (accounts ?pool1)[?i := accounts pool ! ?i]\<rparr> = ?pool1"
    by simp
  have ih: "telegraph_ify fuel gather svc (self, ?pool1, w') = None" for w'
    using Suc.IH [of ?pool1 w'] Suc.prems by simp
  from svc have "snd (svc (calls w)) = Raises ClientError \<or> snd (svc (calls w)) = Raises ConnectionError"
    by blast
  then show ?case
  proof
    assume "snd (svc (calls w)) = Raises ClientError"
    then obtain w' where "create_page svc ?args (accounts pool ! ?i) w = Some (Inl ClientError, accounts pool ! ?i, w')"
      using create_page_raises [OF fr] by blast
    then show ?thesis using r ga ih by (simp add: upd)
  next
    assume "snd (svc (calls w)) = Raises ConnectionError"
    then obtain w' where "create_page svc ?args (accounts pool ! ?i) w = Some (Inl ConnectionError, accounts pool ! ?i, w')"
      using create_page_raises [OF fr] by blast
    then show ?thesis using r ga ih by (simp add: upd)
  qed
qed

text \<open>
  Claim C1, evaluated on the code. The pool has one account and every \<open>createPage\<close>
  request raises \<open>ClientError\<close>. The handler of \<open>ClientError\<close> and \<open>ConnectionError\<close>
  calls \<open>telegraph_ify\<close> again without changing \<open>retries\<close>, so the guard
  \<open>retries >= 3\<close> never holds: whatever the fuel, the call has not returned, and in
  particular has not raised \<open>OverflowError\<close>. When the fifth request succeeds, the
  call returns its URL after five attempts with \<open>retries\<close> still 0.
\<close>

theorem telegraph_ify_network_retry_unbounded:
  "telegraph_ify fuel gather (\<lambda>k. (1 / 10, Raises ClientError))
     (\<lparr>retries = 0, telegraph_author = ''a'', telegraph_author_url = ''u'',
       telegraph_title = ''t'', telegraph_html_content = ''c''\<rparr>,
      \<lparr>tokens = [''A''], accounts = [Telegraph (Some ''A'')], curr_id = 0\<rparr>,
      \<lparr>clock = 1000, calls = 0, trace = []\<rparr>) = None
   \<and> (case telegraph_ify 5 gather (\<lambda>k. (1 / 10, if k < 4 then Raises ClientError else Returns ''url''))
          (\<lparr>retries = 0, telegraph_author = ''a'', telegraph_author_url = ''u'',
            telegraph_title = ''t'', telegraph_html_content = ''c''\<rparr>,
           \<lparr>tokens = [''A''], accounts = [Telegraph (Some ''A'')], curr_id = 0\<rparr>,
           \<lparr>clock = 1000, calls = 0, trace = []\<rparr>) of
         None \<Rightarrow> False
       | Some (r, self, pool, w) \<Rightarrow> r = Inr ''url'' \<and> retries self = 0 \<and> attempts w = 5)"
proof -
  have 1: "telegraph_ify fuel gather (\<lambda>k. (1 / 10, Raises ClientError))
     (\<lparr>retries = 0, telegraph_author = ''a'', telegraph_author_url = ''u'',
       telegraph_title = ''t'', telegraph_html_content = ''c''\<rparr>,
      \<lparr>tokens = [''A''], accounts = [Telegraph (Some ''A'')], curr_id = 0\<rparr>,
      \<lparr>clock = 1000, calls = 0, trace = []\<rparr>) = None"
    by (rule telegraph_ify_network_error) (simp_all add: Telegraph_def)
  have 2: "(case telegraph_ify 5 gather (\<lambda>k. (1 / 10, if k < 4 then Raises ClientError else Returns ''url''))
          (\<lparr>retries = 0, telegraph_author = ''a'', telegraph_author_url = ''u'',
            telegraph_title = ''t'', telegraph_html_content = ''c''\<rparr>,
           \<lparr>tokens = [''A''], accounts = [Telegraph (Some ''A'')], curr_id = 0\<rparr>,
           \<lparr>clock = 1000, calls = 0, trace = []\<rparr>) of
         None \<Rightarrow> False
       | Some (r, self, pool, w) \<Rightarrow> r = Inr ''url'' \<and> retries self = 0 \<and> attempts w = 5)"
    by code_simp
  show ?thesis using 1 2 by blast
qed

subsection \<open>The submitted content\<close>

lemma html_content_with_link:
  "link \<noteq> [] \<Longrightarrow> html_content soup_str (Some link) =
        soup_str
        @ ''<br><br>Generated by ''
        @ ''<a href='' @ [CHR 0x27] @ ''https://github.com/Rongronggg9/RSS-to-Telegram-Bot'' @ [CHR 0x27] @ ''>RSStT</a>. ''
        @ ''The copyright belongs to the source site.<br>''
        @ ''If images cannot be loaded properly due to anti-hotlinking, ''
        @ ''please consider install ''
        @ ''<a href='' @ [CHR 0x27] @ ''https://greasyfork.org/scripts/432923'' @ [CHR 0x27] @ ''>this userscript</a>.''
        @ ''<br><br><a href='' @ [CHR 0x27] @ link @ [CHR 0x27] @ ''>Source</a>''"
  by (simp add: html_content_def truthy_def)

text \<open>
  Claim C2, evaluated on the code. The conditional expression covers the whole
  concatenation, so without a link (\<open>None\<close> or the empty string) the content is the
  empty string: the sanitized body and the footer are lost.
\<close>

theorem html_content_without_link:
  "html_content soup_str None = []
   \<and> html_content soup_str (Some []) = []
   \<and> map_sum id telegraph_html_content
        (TelegraphIfy parse str_soup (Some pool) xml title None feed_title author) = Inr []"
  by (simp add: html_content_def truthy_def TelegraphIfy_def Let_def split_def)

subsection \<open>The sanitizer\<close>

lemma loop_Nil [simp]: "sanitize_loop [] f = f"
  by (simp add: sanitize_loop_def)

lemma loop_Cons [simp]: "sanitize_loop (i # is) f = sanitize_loop is (visit i f)"
  by (simp add: sanitize_loop_def)

lemma loop_append: "sanitize_loop (is @ js) f = sanitize_loop js (sanitize_loop is f)"
  by (simp add: sanitize_loop_def)

lemma find_all_append: "find_all (xs @ ys) = find_all xs @ find_all ys"
  by (induction xs rule: find_all.induct) simp_all

lemma visit_absent: "i \<notin> set (find_all f) \<Longrightarrow> visit i f = f"
  by (induction f rule: find_all.induct) simp_all

lemma visit_append_left:
  "i \<notin> set (find_all ys) \<Longrightarrow> visit i (xs @ ys) = visit i xs @ ys"
  by (induction xs rule: find_all.induct) (simp_all add: visit_absent)

lemma visit_append_right:
  "i \<notin> set (find_all xs) \<Longrightarrow> visit i (xs @ ys) = xs @ visit i ys"
  by (induction xs rule: find_all.induct) (simp_all add: visit_absent)

lemma loop_absent: "set is \<inter> set (find_all f) = {} \<Longrightarrow> sanitize_loop is f = f"
  by (induction "is") (simp_all add: visit_absent)

lemma loop_append_left:
  "set is \<inter> set (find_all ys) = {} \<Longrightarrow> sanitize_loop is (xs @ ys) = sanitize_loop is xs @ ys"
  by (induction "is" arbitrary: xs) (simp_all add: visit_append_left)

lemma loop_append_right:
  "set is \<inter> set (find_all xs) = {} \<Longrightarrow> sanitize_loop is (xs @ ys) = xs @ sanitize_loop is ys"
  by (induction "is" arbitrary: ys) (simp_all add: visit_append_right)

lemma loop_Text: "sanitize_loop is (Text s # r) = Text s # sanitize_loop is r"
  by (induction "is" arbitrary: r) simp_all

lemma loop_Tag:
  "j \<notin> set is \<Longrightarrow> sanitize_loop is (Tag j n a cs # r) = Tag j n a (sanitize_loop is cs) # sanitize_loop is r"
  by (induction "is" arbitrary: cs r) auto

lemma sanitized_append: "sanitized (xs @ ys) = sanitized xs @ sanitized ys"
  by (induction xs rule: sanitized.induct) simp_all

lemma find_all_sanitized: "set (find_all (sanitized f)) \<subseteq> set (find_all f)"
  by (induction f rule: sanitized.induct) (auto simp: find_all_append)

lemma find_all_sanitized_mem:
  "x \<in> set (find_all (sanitized f)) \<Longrightarrow> x \<in> set (find_all f)"
  using find_all_sanitized by blast

lemma distinct_sanitized: "distinct (find_all f) \<Longrightarrow> distinct (find_all (sanitized f))"
  by (induction f rule: sanitized.induct)
     (auto simp: find_all_append dest: find_all_sanitized_mem)

lemma sanitized_idem: "sanitized (sanitized f) = sanitized f"
  by (induction f rule: sanitized.induct) (simp_all add: sanitized_append)

lemma loop_sanitized:
  "distinct (find_all f) \<Longrightarrow> sanitize_loop (find_all f) f = sanitized f"
proof (induction f rule: find_all.induct)
  case 1
  then show ?case by simp
next
  case (2 s r)
  then show ?case by (simp add: loop_Text)
next
  case (3 i n a cs r)
  have d: "i \<notin> set (find_all cs)" "i \<notin> set (find_all r)"
    "set (find_all cs) \<inter> set (find_all r) = {}" "distinct (find_all cs)" "distinct (find_all r)"
    using "3.prems" by auto
  have ihc: "sanitize_loop (find_all cs) cs = sanitized cs" using "3.IH"(1) d by simp
  have ihr: "sanitize_loop (find_all r) r = sanitized r" using "3.IH"(2) d by simp
  have rs: "set (find_all r) \<inter> set (find_all (sanitized cs)) = {}"
    using d(3) find_all_sanitized [of cs] by auto
  show ?case
  proof (cases "n \<in> TELEGRAPH_ALLOWED_TAGS")
    case False
    have "sanitize_loop (find_all (Tag i n a cs # r)) (Tag i n a cs # r)
          = sanitize_loop (find_all r) (sanitize_loop (find_all cs) (cs @ r))"
      using False by (simp add: loop_append)
    also have "\<dots> = sanitize_loop (find_all r) (sanitized cs @ r)"
      using d(3) by (simp add: loop_append_left ihc)
    also have "\<dots> = sanitized cs @ sanitized r"
      using rs by (simp add: loop_append_right ihr)
    finally show ?thesis using False by simp
  next
    case True
    let ?a = "filter (\<lambda>(k, v). k \<in> ALLOWED_ATTRS) a"
    have j: "i \<notin> set (find_all cs @ find_all r)" using d by simp
    have "sanitize_loop (find_all (Tag i n a cs # r)) (Tag i n a cs # r)
          = sanitize_loop (find_all cs @ find_all r) (Tag i n ?a cs # r)"
      using True by simp
    also have "\<dots> = Tag i n ?a (sanitize_loop (find_all cs @ find_all r) cs) # sanitize_loop (find_all cs @ find_all r) r"
      by (rule loop_Tag [OF j])
    also have "sanitize_loop (find_all cs @ find_all r) cs = sanitized cs"
      using rs by (simp add: loop_append ihc loop_absent)
    also have "sanitize_loop (find_all cs @ find_all r) r = sanitized r"
      using d(3) by (simp add: loop_append loop_absent ihr)
    finally show ?thesis using True by simp
  qed
qed

lemma sanitize_sanitized: "distinct (find_all f) \<Longrightarrow> sanitize f = sanitized f"
  by (simp add: sanitize_def loop_sanitized)

text \<open>
  Claim C7, the part that fails. Parsed with lxml, the document
  \<open><div><script>x</script><b onclick="y">ok</b></div>\<close> is the tree
  \<open>html > body > div > (script > "x", b[onclick] > "ok")\<close>. The \<open>script\<close> tag is not
  allowed, so it is replaced by its children: its text \<open>x\<close> stays in the document, and the
  result is \<open>x<b>ok</b>\<close>, not \<open><b>ok</b>\<close>.
\<close>

theorem sanitize_script_text_counterexample:
  "sanitize [Tag 0 ''html'' [] [Tag 1 ''body'' [] [Tag 2 ''div'' []
              [Tag 3 ''script'' [] [Text ''x''], Tag 4 ''b'' [(''onclick'', ''y'')] [Text ''ok'']]]]]
     \<noteq> [Tag 4 ''b'' [] [Text ''ok'']]"
  by (simp add: sanitize_def sanitize_loop_def TELEGRAPH_ALLOWED_TAGS_def ALLOWED_ATTRS_def)

text \<open>
  Claim C7, amended. On a parsed document (the tag objects are distinct) the loop of the
  constructor computes the recursive sanitizer of the specification, and sanitizing its
  output again changes nothing. The document of the example sanitizes to the text \<open>x\<close>
  followed by \<open><b>ok</b>\<close> (the children of the disallowed tags stay, the attribute
  \<open>onclick\<close> goes), which is a fixed point; and \<open><b>ok</b>\<close> sanitizes to itself.
\<close>

theorem sanitize_fixed_point:
  assumes "distinct (find_all soup)"
  shows "sanitize soup = sanitized soup
       \<and> sanitize (sanitize soup) = sanitize soup
       \<and> sanitize [Tag 0 ''html'' [] [Tag 1 ''body'' [] [Tag 2 ''div'' []
              [Tag 3 ''script'' [] [Text ''x''], Tag 4 ''b'' [(''onclick'', ''y'')] [Text ''ok'']]]]]
           = [Text ''x'', Tag 4 ''b'' [] [Text ''ok'']]
       \<and> sanitize [Text ''x'', Tag 4 ''b'' [] [Text ''ok'']] = [Text ''x'', Tag 4 ''b'' [] [Text ''ok'']]
       \<and> sanitize [Tag 0 ''html'' [] [Tag 1 ''body'' [] [Tag 2 ''b'' [] [Text ''ok'']]]]
           = [Tag 2 ''b'' [] [Text ''ok'']]"
proof -
  have 1: "sanitize soup = sanitized soup" by (rule sanitize_sanitized [OF assms])
  have "sanitize (sanitized soup) = sanitized (sanitized soup)"
    by (rule sanitize_sanitized [OF distinct_sanitized [OF assms]])
  then have 2: "sanitize (sanitize soup) = sanitize soup"
    by (simp add: 1 sanitized_idem)
  have 3: "sanitize [Tag 0 ''html'' [] [Tag 1 ''body'' [] [Tag 2 ''div'' []
              [Tag 3 ''script'' [] [Text ''x''], Tag 4 ''b'' [(''onclick'', ''y'')] [Text ''ok'']]]]]
           = [Text ''x'', Tag 4 ''b'' [] [Text ''ok'']]"
    by (simp add: sanitize_def sanitize_loop_def TELEGRAPH_ALLOWED_TAGS_def ALLOWED_ATTRS_def)
  have 4: "sanitize [Text ''x'', Tag 4 ''b'' [] [Text ''ok'']] = [Text ''x'', Tag 4 ''b'' [] [Text ''ok'']]"
    by (simp add: sanitize_def sanitize_loop_def TELEGRAPH_ALLOWED_TAGS_def ALLOWED_ATTRS_def)
  have 5: "sanitize [Tag 0 ''html'' [] [Tag 1 ''body'' [] [Tag 2 ''b'' [] [Text ''ok'']]]]
           = [Tag 2 ''b'' [] [Text ''ok'']]"
    by (simp add: sanitize_def sanitize_loop_def TELEGRAPH_ALLOWED_TAGS_def ALLOWED_ATTRS_def)
  show ?thesis using 1 2 3 4 5 by blast
qed

theorem sanitize_fixed_point_witness:
  "distinct (find_all [Tag 0 ''div'' [] [Tag 1 ''span'' [] [Tag 2 ''b'' [(''id'', ''z''), (''href'', ''h'')] [Text ''A'']], Text ''B'']])
   \<and> sanitize [Tag 0 ''div'' [] [Tag 1 ''span'' [] [Tag 2 ''b'' [(''id'', ''z''), (''href'', ''h'')] [Text ''A'']], Text ''B'']]
     = [Tag 2 ''b'' [(''href'', ''h'')] [Text ''A''], Text ''B'']
   \<and> sanitize (sanitize [Tag 0 ''div'' [] [Tag 1 ''span'' [] [Tag 2 ''b'' [(''id'', ''z''), (''href'', ''h'')] [Text ''A'']], Text ''B'']])
     = [Tag 2 ''b'' [(''href'', ''h'')] [Text ''A''], Text ''B'']"
proof -
  let ?soup = "[Tag 0 ''div'' [] [Tag 1 ''span'' [] [Tag 2 ''b'' [(''id'', ''z''), (''href'', ''h'')] [Text ''A'']], Text ''B'']]"
  have h: "distinct (find_all ?soup)" by simp
  have e: "sanitized ?soup = [Tag 2 ''b'' [(''href'', ''h'')] [Text ''A''], Text ''B'']"
    by (simp add: TELEGRAPH_ALLOWED_TAGS_def ALLOWED_ATTRS_def)
  note t = sanitize_fixed_point [OF h]
  from t have 1: "sanitize ?soup = sanitized ?soup" by blast
  from t have 2: "sanitize (sanitize ?soup) = sanitize ?soup" by blast
  show ?thesis using h 1 2 e by simp
qed

subsection \<open>Spacing of the transport calls of one account\<close>

lemma snoc_decomp:
  "xs @ x # ys = zs @ [m] \<longleftrightarrow>
     (ys = [] \<and> xs = zs \<and> x = m) \<or> (\<exists>ys'. ys = ys' @ [m] \<and> zs = xs @ x # ys')"
  by (cases ys rule: rev_cases) auto

lemma lock_invI:
  assumes "\<And>t. holds (tasks s t) \<Longrightarrow> request_locked (account s)"
    and "\<And>t t'. holds (tasks s t) \<Longrightarrow> holds (tasks s t') \<Longrightarrow> t = t'"
  shows "lock_inv s"
  unfolding lock_inv_def using assms by blast

lemma lock_inv_step:
  assumes "lock_inv s" "step a s = Some s'"
  shows "lock_inv s'"
proof -
  have i1: "\<And>t. holds (tasks s t) \<Longrightarrow> request_locked (account s)"
   and i2: "\<And>t t'. holds (tasks s t) \<Longrightarrow> holds (tasks s t') \<Longrightarrow> t = t'"
    using assms(1) unfolding lock_inv_def by blast+
  show ?thesis
  proof (cases a)
    case (Tick d)
    then have s': "s' = s\<lparr>now := now s + d\<rparr>" using assms(2) by (simp split: if_splits)
    show ?thesis by (rule lock_invI) (simp_all add: s' i1, metis i2)
  next
    case CloseGate
    then have s': "s' = s\<lparr>account := (account s)\<lparr>fc_locked := True\<rparr>\<rparr>"
      using assms(2) by (simp split: if_splits)
    show ?thesis by (rule lock_invI) (simp_all add: s' i1, metis i2)
  next
    case OpenGate
    then have s': "s' = s\<lparr>account := (account s)\<lparr>fc_locked := False\<rparr>\<rparr>"
      using assms(2) by (simp split: if_splits)
    show ?thesis by (rule lock_invI) (simp_all add: s' i1, metis i2)
  next
    case (PassGate t)
    then have s': "s' = s\<lparr>tasks := (tasks s)(t := Queued)\<rparr>"
      using assms(2) by (simp split: if_splits)
    have h: "\<And>x. holds (tasks s' x) \<Longrightarrow> holds (tasks s x)"
      by (simp add: s' split: if_splits)
    have a: "account s' = account s" by (simp add: s')
    show ?thesis
    proof (rule lock_invI)
      fix x assume "holds (tasks s' x)"
      then show "request_locked (account s')" unfolding a using h i1 by blast
    next
      fix x y assume "holds (tasks s' x)" "holds (tasks s' y)"
      then show "x = y" using h i2 by blast
    qed
  next
    case (Acquire t)
    then have s': "s' = s\<lparr>account := (account s)\<lparr>request_locked := True\<rparr>,
                  tasks := (tasks s)(t := Sleeping (now s + max (1 / 2 - (now s - last_run (account s))) 0))\<rparr>"
      and free: "\<not> request_locked (account s)"
      using assms(2) by (simp_all split: if_splits)
    have none: "\<And>x. \<not> holds (tasks s x)" using i1 free by blast
    have h: "\<And>x. holds (tasks s' x) \<Longrightarrow> x = t"
      using none by (simp add: s' split: if_splits)
    show ?thesis
    proof (rule lock_invI)
      fix x assume "holds (tasks s' x)"
      show "request_locked (account s')" by (simp add: s')
    next
      fix x y assume "holds (tasks s' x)" "holds (tasks s' y)"
      then show "x = y" using h by blast
    qed
  next
    case (Wake t)
    then obtain u where u: "tasks s t = Sleeping u"
      and s': "s' = s\<lparr>tasks := (tasks s)(t := Requesting), history := history s @ [Begin t (now s)]\<rparr>"
      using assms(2) by (auto split: pc.splits if_splits)
    have ht: "holds (tasks s t)" by (simp add: u)
    have h: "\<And>x. holds (tasks s' x) \<Longrightarrow> x = t"
    proof -
      fix x assume "holds (tasks s' x)"
      then have "x = t \<or> holds (tasks s x)" by (simp add: s' split: if_splits)
      then show "x = t" using i2 ht by blast
    qed
    show ?thesis
    proof (rule lock_invI)
      fix x assume "holds (tasks s' x)"
      show "request_locked (account s')" using i1 [OF ht] by (simp add: s')
    next
      fix x y assume "holds (tasks s' x)" "holds (tasks s' y)"
      then show "x = y" using h by blast
    qed
  next
    case (Succeed t)
    then have r: "tasks s t = Requesting"
      and s': "s' = s\<lparr>account := (account s)\<lparr>last_run := now s, request_locked := False\<rparr>,
                  tasks := (tasks s)(t := Finished),
                  history := history s @ [EndOk t (now s)]\<rparr>"
      using assms(2) by (simp_all split: if_splits)
    have ht: "holds (tasks s t)" by (simp add: r)
    have h: "\<And>x. \<not> holds (tasks s' x)"
    proof
      fix x assume "holds (tasks s' x)"
      then have "x \<noteq> t \<and> holds (tasks s x)" by (simp add: s' split: if_splits)
      then show False using i2 ht by blast
    qed
    show ?thesis by (rule lock_invI) (simp_all add: h)
  next
    case (Fail t)
    then have r: "tasks s t = Requesting"
      and s': "s' = s\<lparr>account := (account s)\<lparr>request_locked := False\<rparr>,
                  tasks := (tasks s)(t := Finished),
                  history := history s @ [EndErr t (now s)]\<rparr>"
      using assms(2) by (simp_all split: if_splits)
    have ht: "holds (tasks s t)" by (simp add: r)
    have h: "\<And>x. \<not> holds (tasks s' x)"
    proof
      fix x assume "holds (tasks s' x)"
      then have "x \<noteq> t \<and> holds (tasks s x)" by (simp add: s' split: if_splits)
      then show False using i2 ht by blast
    qed
    show ?thesis by (rule lock_invI) (simp_all add: h)
  qed
qed

lemma time_inv_step:
  assumes "time_inv s" "step a s = Some s'"
  shows "time_inv s'"
  using assms
  by (cases a) (fastforce simp: time_inv_def sorted_append split: if_splits pc.splits)+


lemma spacing_invI:
  assumes "\<And>t u. tasks s t = Sleeping u \<Longrightarrow> last_run (account s) + 1 / 2 \<le> u"
    and "\<And>t e. EndOk t e \<in> set (history s) \<Longrightarrow> e \<le> last_run (account s)"
    and "\<And>xs ys t e t' b. history s = xs @ EndOk t e # ys \<Longrightarrow> Begin t' b \<in> set ys \<Longrightarrow> e + 1 / 2 \<le> b"
  shows "spacing_inv s"
  unfolding spacing_inv_def using assms by blast

lemma spacing_inv_step:
  assumes "spacing_inv s" "lock_inv s" "time_inv s" "step a s = Some s'"
  shows "spacing_inv s'"
proof -
  have j1: "\<And>t u. tasks s t = Sleeping u \<Longrightarrow> last_run (account s) + 1 / 2 \<le> u"
   and j2: "\<And>t e. EndOk t e \<in> set (history s) \<Longrightarrow> e \<le> last_run (account s)"
   and j3: "\<And>xs ys t e t' b. history s = xs @ EndOk t e # ys \<Longrightarrow> Begin t' b \<in> set ys \<Longrightarrow> e + 1 / 2 \<le> b"
    using assms(1) unfolding spacing_inv_def by blast+
  have i2: "\<And>t t'. holds (tasks s t) \<Longrightarrow> holds (tasks s t') \<Longrightarrow> t = t'"
    using assms(2) unfolding lock_inv_def by blast
  have k1: "\<And>m. m \<in> set (history s) \<Longrightarrow> stamp m \<le> now s"
    using assms(3) unfolding time_inv_def by blast
  show ?thesis
  proof (cases a)
    case (Tick d)
    then have s': "s' = s\<lparr>now := now s + d\<rparr>" using assms(4) by (simp split: if_splits)
    show ?thesis
      by (rule spacing_invI) (simp_all add: s' j1 j2, metis j3)
  next
    case CloseGate
    then have s': "s' = s\<lparr>account := (account s)\<lparr>fc_locked := True\<rparr>\<rparr>"
      using assms(4) by (simp split: if_splits)
    show ?thesis
      by (rule spacing_invI) (simp_all add: s' j1 j2, metis j3)
  next
    case OpenGate
    then have s': "s' = s\<lparr>account := (account s)\<lparr>fc_locked := False\<rparr>\<rparr>"
      using assms(4) by (simp split: if_splits)
    show ?thesis
      by (rule spacing_invI) (simp_all add: s' j1 j2, metis j3)
  next
    case (PassGate t)
    then have s': "s' = s\<lparr>tasks := (tasks s)(t := Queued)\<rparr>"
      using assms(4) by (simp split: if_splits)
    show ?thesis
    proof (rule spacing_invI)
      fix x u assume "tasks s' x = Sleeping u"
      then have "tasks s x = Sleeping u" by (simp add: s' split: if_splits)
      then show "last_run (account s') + 1 / 2 \<le> u" using j1 by (simp add: s')
    next
      fix x e assume "EndOk x e \<in> set (history s')"
      then show "e \<le> last_run (account s')" using j2 by (simp add: s')
    next
      fix xs ys x e t' b
      assume "history s' = xs @ EndOk x e # ys" "Begin t' b \<in> set ys"
      then show "e + 1 / 2 \<le> b" using j3 [of xs x e ys t' b] by (simp add: s')
    qed
  next
    case (Acquire t)
    then have s': "s' = s\<lparr>account := (account s)\<lparr>request_locked := True\<rparr>,
                  tasks := (tasks s)(t := Sleeping (now s + max (1 / 2 - (now s - last_run (account s))) 0))\<rparr>"
      using assms(4) by (simp_all split: if_splits)
    show ?thesis
    proof (rule spacing_invI)
      fix x u assume "tasks s' x = Sleeping u"
      then have "u = now s + max (1 / 2 - (now s - last_run (account s))) 0 \<or> tasks s x = Sleeping u"
        by (simp add: s' split: if_splits)
      then show "last_run (account s') + 1 / 2 \<le> u"
      proof
        assume "u = now s + max (1 / 2 - (now s - last_run (account s))) 0"
        then show ?thesis by (simp add: s' max_def)
      next
        assume "tasks s x = Sleeping u"
        then show ?thesis using j1 by (simp add: s')
      qed
    next
      fix x e assume "EndOk x e \<in> set (history s')"
      then show "e \<le> last_run (account s')" using j2 by (simp add: s')
    next
      fix xs ys x e t' b
      assume "history s' = xs @ EndOk x e # ys" "Begin t' b \<in> set ys"
      then show "e + 1 / 2 \<le> b" using j3 [of xs x e ys t' b] by (simp add: s')
    qed
  next
    case (Wake t)
    then obtain u where u: "tasks s t = Sleeping u" "u \<le> now s"
      and s': "s' = s\<lparr>tasks := (tasks s)(t := Requesting), history := history s @ [Begin t (now s)]\<rparr>"
      using assms(4) by (auto split: pc.splits if_splits)
    have late: "last_run (account s) + 1 / 2 \<le> now s" using j1 [OF u(1)] u(2) by simp
    show ?thesis
    proof (rule spacing_invI)
      fix x v assume "tasks s' x = Sleeping v"
      then have "tasks s x = Sleeping v" by (simp add: s' split: if_splits)
      then show "last_run (account s') + 1 / 2 \<le> v" using j1 by (simp add: s')
    next
      fix x e assume "EndOk x e \<in> set (history s')"
      then show "e \<le> last_run (account s')" using j2 by (simp add: s')
    next
      fix xs ys x e t' b
      assume h: "history s' = xs @ EndOk x e # ys" and b: "Begin t' b \<in> set ys"
      from h have "xs @ EndOk x e # ys = history s @ [Begin t (now s)]" by (simp add: s')
      then obtain ys' where ys: "ys = ys' @ [Begin t (now s)]" and hs: "history s = xs @ EndOk x e # ys'"
        unfolding snoc_decomp by auto
      from b ys have "Begin t' b \<in> set ys' \<or> b = now s" by auto
      then show "e + 1 / 2 \<le> b"
      proof
        assume "Begin t' b \<in> set ys'"
        then show ?thesis using j3 [OF hs] by blast
      next
        assume bn: "b = now s"
        have "EndOk x e \<in> set (history s)" by (simp add: hs)
        then have "e \<le> last_run (account s)" by (rule j2)
        then show ?thesis using late bn by simp
      qed
    qed
  next
    case (Succeed t)
    then have r: "tasks s t = Requesting"
      and s': "s' = s\<lparr>account := (account s)\<lparr>last_run := now s, request_locked := False\<rparr>,
                  tasks := (tasks s)(t := Finished),
                  history := history s @ [EndOk t (now s)]\<rparr>"
      using assms(4) by (simp_all split: if_splits)
    have ht: "holds (tasks s t)" by (simp add: r)
    show ?thesis
    proof (rule spacing_invI)
      fix x v assume "tasks s' x = Sleeping v"
      then have "x \<noteq> t \<and> holds (tasks s x)" by (simp add: s' split: if_splits)
      then have False using i2 ht by blast
      then show "last_run (account s') + 1 / 2 \<le> v" ..
    next
      fix x e assume "EndOk x e \<in> set (history s')"
      then have "e = now s \<or> EndOk x e \<in> set (history s)" by (auto simp: s')
      then show "e \<le> last_run (account s')" using k1 [of "EndOk x e"] by (auto simp: s')
    next
      fix xs ys x e t' b
      assume h: "history s' = xs @ EndOk x e # ys" and b: "Begin t' b \<in> set ys"
      from h have "xs @ EndOk x e # ys = history s @ [EndOk t (now s)]" by (simp add: s')
      then have "(ys = []) \<or> (\<exists>ys'. ys = ys' @ [EndOk t (now s)] \<and> history s = xs @ EndOk x e # ys')"
        unfolding snoc_decomp by auto
      then obtain ys' where ys: "ys = ys' @ [EndOk t (now s)]" and hs: "history s = xs @ EndOk x e # ys'"
        using b by auto
      from b ys have "Begin t' b \<in> set ys'" by auto
      then show "e + 1 / 2 \<le> b" using j3 [OF hs] by blast
    qed
  next
    case (Fail t)
    then have r: "tasks s t = Requesting"
      and s': "s' = s\<lparr>account := (account s)\<lparr>request_locked := False\<rparr>,
                  tasks := (tasks s)(t := Finished),
                  history := history s @ [EndErr t (now s)]\<rparr>"
      using assms(4) by (simp_all split: if_splits)
    show ?thesis
    proof (rule spacing_invI)
      fix x v assume "tasks s' x = Sleeping v"
      then have "tasks s x = Sleeping v" by (simp add: s' split: if_splits)
      then show "last_run (account s') + 1 / 2 \<le> v" using j1 by (simp add: s')
    next
      fix x e assume "EndOk x e \<in> set (history s')"
      then show "e \<le> last_run (account s')" using j2 by (simp add: s')
    next
      fix xs ys x e t' b
      assume h: "history s' = xs @ EndOk x e # ys" and b: "Begin t' b \<in> set ys"
      from h have "xs @ EndOk x e # ys = history s @ [EndErr t (now s)]" by (simp add: s')
      then obtain ys' where ys: "ys = ys' @ [EndErr t (now s)]" and hs: "history s = xs @ EndOk x e # ys'"
        unfolding snoc_decomp by auto
      from b ys have "Begin t' b \<in> set ys'" by auto
      then show "e + 1 / 2 \<le> b" using j3 [OF hs] by blast
    qed
  qed
qed

lemma inv_start: "\<not> request_locked acc \<Longrightarrow> inv (start t0 acc)"
  by (simp add: inv_def lock_inv_def time_inv_def spacing_inv_def start_def)

lemma inv_step: "inv s \<Longrightarrow> step a s = Some s' \<Longrightarrow> inv s'"
  unfolding inv_def using lock_inv_step time_inv_step spacing_inv_step by blast

lemma inv_run: "inv s \<Longrightarrow> run as s = Some s' \<Longrightarrow> inv s'"
proof (induction as arbitrary: s)
  case Nil
  then show ?case by simp
next
  case (Cons a as)
  then obtain s1 where s1: "step a s = Some s1" "run as s1 = Some s'"
    by (auto split: option.splits)
  show ?case using Cons.IH [OF inv_step [OF Cons.prems(1) s1(1)] s1(2)] .
qed


lemma create_page_trace:
  assumes "\<not> fc_locked acc" "\<not> request_locked acc"
  shows "(case create_page svc (ti, c, an, au) acc w of
            None \<Rightarrow> False
          | Some (r, acc', w') \<Rightarrow>
              trace w' = trace w @
                [(clock w, FcAcquire), (clock w, FcRelease), (clock w, RequestAcquire),
                 (clock w, Sleep (max (1 / 2 - (clock w - last_run acc)) 0)),
                 (clock w + max (1 / 2 - (clock w - last_run acc)) 0, CreatePage (token acc) ti c an au),
                 (clock w', RequestRelease)])"
  using assms
  by (cases "snd (svc (calls w))")
     (simp_all add: create_page_def request_def sleep_def emit_def Let_def)

text \<open>
  Claim C4, the part that fails. \<open>last_run\<close> is only set when the transport call
  returns a page. A call whose transport call raised after 0.1 s leaves it as it was, and
  the next call on the account sleeps \<open>max(0.5 - (now - last_run), 0) = 0\<close> seconds: the
  two transport calls begin 0.1 s apart. This is what a retry of \<open>telegraph_ify\<close> after
  a network error does on a pool of one account.
\<close>

theorem create_page_spacing_counterexample:
  "(case create_page (\<lambda>k. (1 / 10, Raises ClientError)) (''t'', ''c'', ''a'', ''u'')
           (Telegraph (Some ''A'')) \<lparr>clock = 1000, calls = 0, trace = []\<rparr> of
      None \<Rightarrow> False
    | Some (r1, acc1, w1) \<Rightarrow>
        (case create_page (\<lambda>k. (1 / 10, Raises ClientError)) (''t'', ''c'', ''a'', ''u'') acc1 w1 of
           None \<Rightarrow> False
         | Some (r2, acc2, w2) \<Rightarrow>
             filter is_CreatePage (trace w2)
               = [(1000, CreatePage (Some ''A'') ''t'' ''c'' ''a'' ''u''),
                  (10001 / 10, CreatePage (Some ''A'') ''t'' ''c'' ''a'' ''u'')]))
   \<and> map_option history
        (run [PassGate 0, Acquire 0, Wake 0, Tick (1 / 10), Fail 0, PassGate 1, Acquire 1, Wake 1]
           (start 1000 (Telegraph (Some ''A''))))
     = Some [Begin 0 1000, EndErr 0 (10001 / 10), Begin 1 (10001 / 10)]
   \<and> \<not> ((1000 :: rat) + 1 / 2 \<le> 10001 / 10)"
  by (simp add: create_page_def request_def sleep_def emit_def Telegraph_def start_def)

text \<open>
  Claim C4, amended. Whatever the schedule of concurrent calls on one account whose
  request lock was free at the start:
  \<^item> a call sleeps and makes its transport call only while the request lock is held, and
    at most one call is in that stretch, so no two transport calls are in flight at once;
  \<^item> a transport call begins at least half a second after every earlier transport call
    that returned successfully (after its return, hence also after its beginning);
  \<^item> the sleep before the transport call lasts \<open>max(0.5 - (now - last_run), 0)\<close> seconds
    and lies between the taking and the release of the request lock.
  Nothing is promised after a transport call that raised.
\<close>

theorem create_page_spacing:
  assumes "\<not> request_locked acc" "run as (start t0 acc) = Some s"
  shows "(\<forall>t. holds (tasks s t) \<longrightarrow> request_locked (account s))
       \<and> (\<forall>t t'. holds (tasks s t) \<longrightarrow> holds (tasks s t') \<longrightarrow> t = t')
       \<and> (\<forall>xs ys t e t' b. history s = xs @ EndOk t e # ys \<longrightarrow> Begin t' b \<in> set ys \<longrightarrow> e + 1 / 2 \<le> b)
       \<and> (\<forall>xs ys zs t a e t' b. history s = xs @ Begin t a # ys @ EndOk t e # zs \<longrightarrow>
              Begin t' b \<in> set zs \<longrightarrow> a + 1 / 2 \<le> b)
       \<and> sorted (map stamp (history s))
       \<and> (\<not> fc_locked acc \<longrightarrow>
            (case create_page svc (ti, c, an, au) acc w of
               None \<Rightarrow> False
             | Some (r, acc', w') \<Rightarrow>
                 trace w' = trace w @
                   [(clock w, FcAcquire), (clock w, FcRelease), (clock w, RequestAcquire),
                    (clock w, Sleep (max (1 / 2 - (clock w - last_run acc)) 0)),
                    (clock w + max (1 / 2 - (clock w - last_run acc)) 0, CreatePage (token acc) ti c an au),
                    (clock w', RequestRelease)]))"
proof -
  have "inv s" by (rule inv_run [OF inv_start [OF assms(1)] assms(2)])
  then have l: "lock_inv s" and t: "time_inv s" and p: "spacing_inv s"
    by (simp_all add: inv_def)
  have 1: "\<forall>t. holds (tasks s t) \<longrightarrow> request_locked (account s)"
    using l unfolding lock_inv_def by blast
  have 2: "\<forall>t t'. holds (tasks s t) \<longrightarrow> holds (tasks s t') \<longrightarrow> t = t'"
    using l unfolding lock_inv_def by blast
  have 3: "\<forall>xs ys t e t' b. history s = xs @ EndOk t e # ys \<longrightarrow> Begin t' b \<in> set ys \<longrightarrow> e + 1 / 2 \<le> b"
    using p unfolding spacing_inv_def by blast
  have 5: "sorted (map stamp (history s))"
    using t unfolding time_inv_def by blast
  have 4: "\<forall>xs ys zs t a e t' b. history s = xs @ Begin t a # ys @ EndOk t e # zs \<longrightarrow>
              Begin t' b \<in> set zs \<longrightarrow> a + 1 / 2 \<le> b"
  proof (intro allI impI)
    fix xs ys zs t a e t' b
    assume h: "history s = xs @ Begin t a # ys @ EndOk t e # zs" and b: "Begin t' b \<in> set zs"
    have "a \<le> e" using 5 unfolding h by (simp add: sorted_append)
    moreover have "history s = (xs @ Begin t a # ys) @ EndOk t e # zs" by (simp add: h)
    then have "e + 1 / 2 \<le> b" using 3 b by blast
    ultimately show "a + 1 / 2 \<le> b" by simp
  qed
  have 6: "\<not> fc_locked acc \<longrightarrow>
            (case create_page svc (ti, c, an, au) acc w of
               None \<Rightarrow> False
             | Some (r, acc', w') \<Rightarrow>
                 trace w' = trace w @
                   [(clock w, FcAcquire), (clock w, FcRelease), (clock w, RequestAcquire),
                    (clock w, Sleep (max (1 / 2 - (clock w - last_run acc)) 0)),
                    (clock w + max (1 / 2 - (clock w - last_run acc)) 0, CreatePage (token acc) ti c an au),
                    (clock w', RequestRelease)])"
    using create_page_trace [OF _ assms(1)] by blast
  show ?thesis using 1 2 3 4 5 6 by blast
qed

theorem create_page_spacing_witness:
  "\<not> request_locked (Telegraph (Some ''A''))
   \<and> map_option history
        (run [PassGate 0, PassGate 1, Acquire 0, Wake 0, Tick (1 / 10), Succeed 0, Acquire 1, Tick (1 / 2), Wake 1]
           (start 1000 (Telegraph (Some ''A''))))
     = Some [Begin 0 1000, EndOk 0 (10001 / 10), Begin 1 (5003 / 5)]
   \<and> (10001 / 10 :: rat) + 1 / 2 \<le> 5003 / 5"
proof -
  let ?as = "[PassGate 0, PassGate 1, Acquire 0, Wake 0, Tick (1 / 10), Succeed 0, Acquire 1, Tick (1 / 2), Wake 1]"
  let ?st = "start 1000 (Telegraph (Some ''A''))"
  have h: "\<not> request_locked (Telegraph (Some ''A''))" by (simp add: Telegraph_def)
  have e: "map_option history (run ?as ?st) = Some [Begin 0 1000, EndOk 0 (10001 / 10), Begin 1 (5003 / 5)]"
    by (simp add: start_def Telegraph_def)
  define R where "R = run ?as ?st"
  have "map_option history R = Some [Begin 0 1000, EndOk 0 (10001 / 10), Begin 1 (5003 / 5)]"
    unfolding R_def by (rule e)
  then obtain s where "R = Some s"
    and hs: "history s = [Begin 0 1000] @ EndOk 0 (10001 / 10) # [Begin 1 (5003 / 5)]"
    by (cases R) auto
  then have r: "run ?as ?st = Some s" by (simp add: R_def)
  note t = create_page_spacing [OF h r]
  from t have sp: "\<And>xs ys t e t' b. history s = xs @ EndOk t e # ys \<Longrightarrow> Begin t' b \<in> set ys \<Longrightarrow> e + 1 / 2 \<le> b"
    by blast
  have "(10001 / 10 :: rat) + 1 / 2 \<le> 5003 / 5"
    by (rule sp [OF hs]) simp
  then show ?thesis using h e by blast
qed

end
